theory Spec2Isabelle
  imports Complex_Main "HOL-Library.AList"
begin

section \<open>Values and errors\<close>

text \<open>
  The script \<^verbatim>\<open>versionplot.py\<close> reads a spreadsheet through \<^verbatim>\<open>xlrd\<close>, turns sheet
  names into dates with \<^verbatim>\<open>datetime.strptime\<close>, and accumulates counts in a dictionary of
  two-column arrays. Every exception the script can raise is a value of \<open>error\<close>; a
  function that can raise returns \<open>error + 'a\<close>, with \<open>Inl\<close> for the exception.

  \<^item> \<open>ValueError\<close>: raised by \<^verbatim>\<open>strptime\<close> (the specification's FormatError), by
    \<^verbatim>\<open>semver.parse\<close> (the specification's ParseError) and by \<^verbatim>\<open>int\<close>;
  \<^item> \<open>KeyError\<close> and \<open>IndexError\<close>: Python's two subclasses of \<^verbatim>\<open>LookupError\<close>;
  \<^item> \<open>TypeError\<close>: subscripting or matching a value that is not a string;
  \<^item> \<open>XLRDError\<close>: \<^verbatim>\<open>sheet_by_name\<close> on a name the workbook does not have.
\<close>

datatype error = ValueError | KeyError | IndexError | TypeError | XLRDError

text \<open>
  A cell value as \<^verbatim>\<open>xlrd\<close> hands it over: a string for a text cell (the empty string
  for an empty cell), a float for a number cell, an integer for a boolean cell. A number
  is modelled by the rational it denotes (every finite float is one), so that \<open>1\<close> and
  \<open>1.0\<close> are the same dictionary key, as they are in Python. Strings are lists of bytes.
\<close>

datatype cell_value = Text string | Number rat

text \<open>A \<^verbatim>\<open>datetime.date\<close>: year, month, day.\<close>

datatype date = Date (year: nat) (month: nat) (day: nat)

section \<open>Decimal digits\<close>

definition is_digit :: "char \<Rightarrow> bool" where
  "is_digit c = (c \<in> set ''0123456789'')"

definition digit_val :: "char \<Rightarrow> nat" where
  "digit_val c = of_char c - 48"

definition nat_of_digits :: "string \<Rightarrow> nat" where
  "nat_of_digits s = foldl (\<lambda>n c. 10 * n + digit_val c) 0 s"

section \<open>The date extractor\<close>

text \<open>
  \<^verbatim>\<open>datetime.strptime(datestring, "%Y%m%d")\<close> compiles the format into the regular
  expression
  \<^verbatim>\<open>(?P<Y>\d\d\d\d)(?P<m>1[0-2]|0[1-9]|[1-9])(?P<d>3[0-1]|[1-2]\d|0[1-9]|[1-9]| [1-9])\<close>
  and matches it at the start of the string. The alternatives of a group are tried in
  the order written, and a later group failing makes the matcher return to the next
  alternative of the earlier one. \<open>month_alts\<close> and \<open>day_alts\<close> list, in that order, the
  alternatives that match at the head of a string, each with the text it consumed and
  the rest of the string. Characters are bytes here, so \<^verbatim>\<open>\d\<close> is an ASCII digit.
\<close>

definition month_alts :: "string \<Rightarrow> (string \<times> string) list" where
  "month_alts s =
     (case s of
        a # b # r \<Rightarrow> (if a = CHR ''1'' \<and> b \<in> set ''012'' then [([a, b], r)] else [])
      | _ \<Rightarrow> [])
     @ (case s of
        a # b # r \<Rightarrow> (if a = CHR ''0'' \<and> b \<in> set ''123456789'' then [([a, b], r)] else [])
      | _ \<Rightarrow> [])
     @ (case s of
        a # r \<Rightarrow> (if a \<in> set ''123456789'' then [([a], r)] else [])
      | _ \<Rightarrow> [])"

definition day_alts :: "string \<Rightarrow> (string \<times> string) list" where
  "day_alts s =
     (case s of
        a # b # r \<Rightarrow> (if a = CHR ''3'' \<and> b \<in> set ''01'' then [([a, b], r)] else [])
      | _ \<Rightarrow> [])
     @ (case s of
        a # b # r \<Rightarrow> (if a \<in> set ''12'' \<and> is_digit b then [([a, b], r)] else [])
      | _ \<Rightarrow> [])
     @ (case s of
        a # b # r \<Rightarrow> (if a = CHR ''0'' \<and> b \<in> set ''123456789'' then [([a, b], r)] else [])
      | _ \<Rightarrow> [])
     @ (case s of
        a # r \<Rightarrow> (if a \<in> set ''123456789'' then [([a], r)] else [])
      | _ \<Rightarrow> [])
     @ (case s of
        a # b # r \<Rightarrow> (if a = CHR '' '' \<and> b \<in> set ''123456789'' then [([a, b], r)] else [])
      | _ \<Rightarrow> [])"

text \<open>
  The match found is the first one in the order of the search: the groups
  \<open>(Y, m, d)\<close> and the unmatched rest of the string.
\<close>

definition strptime_match :: "string \<Rightarrow> (string \<times> string \<times> string \<times> string) option" where
  "strptime_match s =
     (if 4 \<le> length s \<and> list_all is_digit (take 4 s) then
        (case concat (map (\<lambda>(m, r). map (\<lambda>(d, r'). (take 4 s, m, d, r')) (day_alts r))
                          (month_alts (drop 4 s))) of
           [] \<Rightarrow> None
         | found # _ \<Rightarrow> Some found)
      else None)"

text \<open>The constructor of \<^verbatim>\<open>datetime.date\<close> checks its fields.\<close>

definition is_leap :: "nat \<Rightarrow> bool" where
  "is_leap y = (y mod 4 = 0 \<and> (y mod 100 \<noteq> 0 \<or> y mod 400 = 0))"

definition days_in_month :: "nat \<Rightarrow> nat \<Rightarrow> nat" where
  "days_in_month y m =
     (if m = 2 \<and> is_leap y then 29
      else [31, 28, 31, 30, 31, 30, 31, 31, 30, 31, 30, 31] ! (m - 1))"

definition valid_date :: "date \<Rightarrow> bool" where
  "valid_date dt =
     (1 \<le> year dt \<and> year dt \<le> 9999 \<and> 1 \<le> month dt \<and> month dt \<le> 12 \<and>
      1 \<le> day dt \<and> day dt \<le> days_in_month (year dt) (month dt))"

definition make_date :: "nat \<Rightarrow> nat \<Rightarrow> nat \<Rightarrow> error + date" where
  "make_date y m d = (if valid_date (Date y m d) then Inr (Date y m d) else Inl ValueError)"

text \<open>
  \<^verbatim>\<open>int\<close> of a matched group: the group is digits, after one blank in the last
  alternative of the day, which \<^verbatim>\<open>int\<close> skips.
\<close>

definition group_int :: "string \<Rightarrow> nat" where
  "group_int g = nat_of_digits (filter is_digit g)"

text \<open>
  \<open>get_date\<close>: no match raises, a match that leaves text unconsumed raises
  (\<^verbatim>\<open>unconverted data remains\<close>), and so does a date that does not exist.
\<close>

definition get_date :: "string \<Rightarrow> error + date" where
  "get_date datestring =
     (case strptime_match datestring of
        None \<Rightarrow> Inl ValueError
      | Some (Y, m, d, rest) \<Rightarrow>
          if rest \<noteq> [] then Inl ValueError
          else make_date (group_int Y) (group_int m) (group_int d))"





section \<open>The workbook\<close>

text \<open>
  A sheet of \<^verbatim>\<open>xlrd\<close> has a name and its rows of cell values; \<^verbatim>\<open>sheet.cell(rowx, colx)\<close>
  indexes the rows and raises \<^verbatim>\<open>IndexError\<close> outside them. A workbook is its sheets, in
  order; \<^verbatim>\<open>sheet_by_name\<close> returns the first sheet of that name.
\<close>

record sheet =
  sheet_name :: string
  cell_values :: "cell_value list list"

type_synonym workbook = "sheet list"

definition nrows :: "sheet \<Rightarrow> nat" where
  "nrows sh = length (cell_values sh)"

definition cell :: "sheet \<Rightarrow> nat \<Rightarrow> nat \<Rightarrow> error + cell_value" where
  "cell sh rowx colx =
     (if rowx < nrows sh \<and> colx < length (cell_values sh ! rowx)
      then Inr (cell_values sh ! rowx ! colx) else Inl IndexError)"

definition sheet_names :: "workbook \<Rightarrow> string list" where
  "sheet_names wb = map sheet_name wb"

definition sheet_by_name :: "workbook \<Rightarrow> string \<Rightarrow> error + sheet" where
  "sheet_by_name wb n =
     (case find (\<lambda>sh. sheet_name sh = n) wb of
        None \<Rightarrow> Inl XLRDError
      | Some sh \<Rightarrow> Inr sh)"

section \<open>Conversion of a count\<close>

text \<open>
  \<^verbatim>\<open>int(value)\<close>: a float is truncated towards zero; a string is stripped of white
  space (blank, tab, line feed, vertical tab, form feed, carriage return) and read as an
  optional sign and decimal digits, where single underscores may separate digits;
  anything else raises \<^verbatim>\<open>ValueError\<close>. Strings are ASCII here.
\<close>

definition is_space :: "char \<Rightarrow> bool" where
  "is_space c = (of_char c \<in> set [9, 10, 11, 12, 13, 32 :: nat])"

definition strip :: "string \<Rightarrow> string" where
  "strip s = rev (dropWhile is_space (rev (dropWhile is_space s)))"

fun int_literal :: "string \<Rightarrow> bool" where
  "int_literal [] = False"
| "int_literal [c] = is_digit c"
| "int_literal (c # u # r) =
     (is_digit c \<and> (if u = CHR ''_'' then int_literal r else int_literal (u # r)))"

definition py_int :: "cell_value \<Rightarrow> error + int" where
  "py_int v =
     (case v of
        Number q \<Rightarrow> Inr (if 0 \<le> q then \<lfloor>q\<rfloor> else \<lceil>q\<rceil>)
      | Text s \<Rightarrow>
          (let t = strip s;
               neg = (t \<noteq> [] \<and> hd t = CHR ''-'');
               u = (if t \<noteq> [] \<and> hd t \<in> set ''+-'' then tl t else t)
           in if int_literal u
              then Inr ((if neg then - 1 else 1) * int (nat_of_digits (filter is_digit u)))
              else Inl ValueError))"

section \<open>Semantic versions\<close>

text \<open>
  \<^verbatim>\<open>semver.parse\<close> matches the whole string against the grammar
  \<^verbatim>\<open>major.minor.patch[-prerelease][+build]\<close>: the three numbers are \<^verbatim>\<open>0|[1-9][0-9]*\<close>,
  a prerelease is dot-separated identifiers \<^verbatim>\<open>0|[1-9A-Za-z-][0-9A-Za-z-]*\<close>, a build is
  dot-separated identifiers \<^verbatim>\<open>[0-9A-Za-z-]+\<close>. The closing \<^verbatim>\<open>$\<close> of the expression also
  matches before one newline that ends the string. The result is the three numbers and
  the prerelease, the build taking no part in comparisons.
\<close>

definition is_idchar :: "char \<Rightarrow> bool" where
  "is_idchar c =
     (is_digit c \<or> c \<in> set ''ABCDEFGHIJKLMNOPQRSTUVWXYZabcdefghijklmnopqrstuvwxyz-'')"

definition numeric_id :: "string \<Rightarrow> bool" where
  "numeric_id s = (s \<noteq> [] \<and> list_all is_digit s \<and> (s = ''0'' \<or> hd s \<noteq> CHR ''0''))"

definition prerelease_id :: "string \<Rightarrow> bool" where
  "prerelease_id s = (s = ''0'' \<or> (s \<noteq> [] \<and> hd s \<noteq> CHR ''0'' \<and> list_all is_idchar s))"

definition build_id :: "string \<Rightarrow> bool" where
  "build_id s = (s \<noteq> [] \<and> list_all is_idchar s)"

fun split_on :: "char \<Rightarrow> string \<Rightarrow> string list" where
  "split_on c [] = [[]]"
| "split_on c (x # xs) =
     (if x = c then [] # split_on c xs
      else (case split_on c xs of p # ps \<Rightarrow> (x # p) # ps | [] \<Rightarrow> [[x]]))"

record version_info =
  major :: nat
  minor :: nat
  patch :: nat
  prerelease :: "string option"

definition parse_tail :: "string \<Rightarrow> string option option" where
  "parse_tail r =
     (case r of
        [] \<Rightarrow> Some None
      | c # r' \<Rightarrow>
          if c = CHR ''-'' then
            (let pre = takeWhile (\<lambda>x. x \<noteq> CHR ''+'') r';
                 after = dropWhile (\<lambda>x. x \<noteq> CHR ''+'') r'
             in if list_all prerelease_id (split_on CHR ''.'' pre) \<and>
                   (after = [] \<or> list_all build_id (split_on CHR ''.'' (tl after)))
                then Some (Some pre) else None)
          else if c = CHR ''+'' then
            (if list_all build_id (split_on CHR ''.'' r') then Some None else None)
          else None)"

definition semver_parse :: "string \<Rightarrow> error + version_info" where
  "semver_parse version =
     (let s = (if version \<noteq> [] \<and> last version = CHR 0x0A then butlast version else version);
          ma = takeWhile is_digit s; r1 = dropWhile is_digit s;
          mi = takeWhile is_digit (tl r1); r2 = dropWhile is_digit (tl r1);
          pa = takeWhile is_digit (tl r2); r3 = dropWhile is_digit (tl r2)
      in if r1 \<noteq> [] \<and> hd r1 = CHR ''.'' \<and> r2 \<noteq> [] \<and> hd r2 = CHR ''.'' \<and>
            numeric_id ma \<and> numeric_id mi \<and> numeric_id pa
         then (case parse_tail r3 of
                 None \<Rightarrow> Inl ValueError
               | Some pre \<Rightarrow>
                   Inr \<lparr>major = nat_of_digits ma, minor = nat_of_digits mi,
                        patch = nat_of_digits pa, prerelease = pre\<rparr>)
         else Inl ValueError)"

text \<open>
  \<^verbatim>\<open>semver.compare\<close>: major, minor and patch in turn; then a version with a prerelease
  is below the same version without one, and two prereleases compare identifier by
  identifier (numbers as numbers and below any text, text by code points, a proper
  prefix below the longer one).
\<close>

definition cmp_nat :: "nat \<Rightarrow> nat \<Rightarrow> int" where
  "cmp_nat a b = (if a < b then - 1 else if b < a then 1 else 0)"

fun cmp_str :: "string \<Rightarrow> string \<Rightarrow> int" where
  "cmp_str [] [] = 0"
| "cmp_str [] (y # ys) = - 1"
| "cmp_str (x # xs) [] = 1"
| "cmp_str (x # xs) (y # ys) =
     (if cmp_nat (of_char x) (of_char y) \<noteq> 0 then cmp_nat (of_char x) (of_char y)
      else cmp_str xs ys)"

definition cmp_prerelease_tag :: "string \<Rightarrow> string \<Rightarrow> int" where
  "cmp_prerelease_tag a b =
     (if list_all is_digit a \<and> list_all is_digit b
      then cmp_nat (nat_of_digits a) (nat_of_digits b)
      else if list_all is_digit a then - 1
      else if list_all is_digit b then 1
      else cmp_str a b)"

fun cmp_tags :: "string list \<Rightarrow> string list \<Rightarrow> int" where
  "cmp_tags [] [] = 0"
| "cmp_tags [] (b # bs) = - 1"
| "cmp_tags (a # as) [] = 1"
| "cmp_tags (a # as) (b # bs) =
     (if cmp_prerelease_tag a b \<noteq> 0 then cmp_prerelease_tag a b else cmp_tags as bs)"

definition semver_compare :: "version_info \<Rightarrow> version_info \<Rightarrow> int" where
  "semver_compare v1 v2 =
     (if cmp_nat (major v1) (major v2) \<noteq> 0 then cmp_nat (major v1) (major v2)
      else if cmp_nat (minor v1) (minor v2) \<noteq> 0 then cmp_nat (minor v1) (minor v2)
      else if cmp_nat (patch v1) (patch v2) \<noteq> 0 then cmp_nat (patch v1) (patch v2)
      else (case (prerelease v1, prerelease v2) of
              (None, None) \<Rightarrow> 0
            | (None, Some rc2) \<Rightarrow> 1
            | (Some rc1, None) \<Rightarrow> - 1
            | (Some rc1, Some rc2) \<Rightarrow>
                cmp_tags (split_on CHR ''.'' rc1) (split_on CHR ''.'' rc2)))"

text \<open>
  \<^verbatim>\<open>semver.match(version, match_expr)\<close>: the expression is an operator and a version;
  the result says whether the comparison is one the operator allows.
\<close>

definition possibilities :: "string \<Rightarrow> int list" where
  "possibilities prefix =
     (if prefix = ''>'' then [1] else if prefix = ''<'' then [- 1]
      else if prefix = ''=='' then [0] else if prefix = ''!='' then [- 1, 1]
      else if prefix = ''>='' then [0, 1] else [- 1, 0])"

definition semver_match :: "string \<Rightarrow> string \<Rightarrow> error + bool" where
  "semver_match version match_expr =
     (let prefix = take 2 match_expr in
      if prefix \<in> set [''>='', ''<='', ''=='', ''!=''] \<or>
         (prefix \<noteq> [] \<and> hd prefix \<in> set ''><'')
      then
        (let op = (if prefix \<in> set [''>='', ''<='', ''=='', ''!='']
                   then prefix else [hd prefix]);
             match_version = drop (length op) match_expr
         in case semver_parse version of
              Inl e \<Rightarrow> Inl e
            | Inr v1 \<Rightarrow>
                (case semver_parse match_version of
                   Inl e \<Rightarrow> Inl e
                 | Inr v2 \<Rightarrow> Inr (semver_compare v1 v2 \<in> set (possibilities op))))
      else Inl ValueError)"

definition MC_VERSION :: string where
  "MC_VERSION = ''>=2.12.0''"

section \<open>The aggregator\<close>

text \<open>
  A time series is the two-column array of the script: one row \<open>(date, count)\<close> per date
  sheet. The rows hold Python objects, so a count is an unbounded integer. The
  dictionary \<open>oslist\<close> is an association list with one entry per key, in insertion
  order: \<open>AList.update\<close> replaces the value of a key that is present and appends a new
  key, as assignment to a \<^verbatim>\<open>dict\<close> does.
\<close>

type_synonym series = "(date \<times> int) list"

type_synonym oslist = "(cell_value \<times> series) list"

definition extra_versions :: "string list" where
  "extra_versions = [''1.x'', ''2.x'', ''mc-capable'', ''non-mc-capable'']"

text \<open>The first loop: one row \<open>(get_date name, 0)\<close> appended per date sheet.\<close>

fun build_dates :: "series \<Rightarrow> string list \<Rightarrow> error + series" where
  "build_dates dates [] = Inr dates"
| "build_dates dates (date_sheet_name # names) =
     (case get_date date_sheet_name of
        Inl e \<Rightarrow> Inl e
      | Inr d \<Rightarrow> build_dates (dates @ [(d, 0)]) names)"

text \<open>The second loop: a copy of \<open>dates\<close> under every value of the catalog column.\<close>

fun load_versions :: "sheet \<Rightarrow> series \<Rightarrow> nat list \<Rightarrow> oslist \<Rightarrow> error + oslist" where
  "load_versions ossheet dates [] oslist = Inr oslist"
| "load_versions ossheet dates (row_idx # row_idxs) oslist =
     (case cell ossheet row_idx 0 of
        Inl e \<Rightarrow> Inl e
      | Inr version \<Rightarrow> load_versions ossheet dates row_idxs (AList.update version dates oslist))"

text \<open>The third loop: a copy of \<open>dates\<close> under each of the four derived keys.\<close>

definition add_extra :: "series \<Rightarrow> oslist \<Rightarrow> oslist" where
  "add_extra dates oslist =
     foldl (\<lambda>acc ver. AList.update (Text ver) dates acc) oslist extra_versions"

text \<open>
  \<^verbatim>\<open>numpy.where(oslist[key] == daily_date)[0][0]\<close> is the index of the first row that
  holds the date (a count never equals a date); the cell of that row in column 1 is
  then increased. A missing key raises \<^verbatim>\<open>KeyError\<close>, no such row \<^verbatim>\<open>IndexError\<close>.
\<close>

fun first_index :: "('a \<Rightarrow> bool) \<Rightarrow> 'a list \<Rightarrow> nat option" where
  "first_index P [] = None"
| "first_index P (x # xs) = (if P x then Some 0 else map_option Suc (first_index P xs))"

definition add_count :: "oslist \<Rightarrow> cell_value \<Rightarrow> date \<Rightarrow> int \<Rightarrow> error + oslist" where
  "add_count oslist key daily_date count =
     (case map_of oslist key of
        None \<Rightarrow> Inl KeyError
      | Some arr \<Rightarrow>
          (case first_index (\<lambda>row. fst row = daily_date) arr of
             None \<Rightarrow> Inl IndexError
           | Some dayindex \<Rightarrow>
               Inr (AList.update key
                      (arr[dayindex := (fst (arr ! dayindex), snd (arr ! dayindex) + count)])
                      oslist)))"

definition special_version :: "string \<Rightarrow> string" where
  "special_version version = (if hd version = CHR ''2'' then ''2.x'' else ''1.x'')"

definition mc_capability :: "bool \<Rightarrow> string" where
  "mc_capability mc = (if mc then ''mc-capable'' else ''non-mc-capable'')"

text \<open>
  The body of the inner loop, for one row of a daily sheet. The statements run in the
  order of the script, so the first one to raise decides the error: reading the two
  cells, \<^verbatim>\<open>int\<close>, the version's own series, \<^verbatim>\<open>version[0]\<close> (which needs a string that
  is not empty), the major-version series, \<^verbatim>\<open>semver.match\<close>, the capability series.
\<close>

definition process_row :: "sheet \<Rightarrow> date \<Rightarrow> nat \<Rightarrow> oslist \<Rightarrow> error + oslist" where
  "process_row daily_sheet daily_date row_idx oslist =
     (case cell daily_sheet row_idx 0 of
        Inl e \<Rightarrow> Inl e
      | Inr version \<Rightarrow>
     (case cell daily_sheet row_idx 2 of
        Inl e \<Rightarrow> Inl e
      | Inr cv \<Rightarrow>
     (case py_int cv of
        Inl e \<Rightarrow> Inl e
      | Inr count \<Rightarrow>
     (case add_count oslist version daily_date count of
        Inl e \<Rightarrow> Inl e
      | Inr oslist1 \<Rightarrow>
     (case version of
        Number q \<Rightarrow> Inl TypeError
      | Text v \<Rightarrow>
          if v = [] then Inl IndexError
          else
     (case add_count oslist1 (Text (special_version v)) daily_date count of
        Inl e \<Rightarrow> Inl e
      | Inr oslist2 \<Rightarrow>
     (case semver_match v MC_VERSION of
        Inl e \<Rightarrow> Inl e
      | Inr mc \<Rightarrow> add_count oslist2 (Text (mc_capability mc)) daily_date count)))))))"

fun process_rows :: "sheet \<Rightarrow> date \<Rightarrow> nat list \<Rightarrow> oslist \<Rightarrow> error + oslist" where
  "process_rows daily_sheet daily_date [] oslist = Inr oslist"
| "process_rows daily_sheet daily_date (row_idx # row_idxs) oslist =
     (case process_row daily_sheet daily_date row_idx oslist of
        Inl e \<Rightarrow> Inl e
      | Inr oslist' \<Rightarrow> process_rows daily_sheet daily_date row_idxs oslist')"

text \<open>The outer loop over the date sheets; the rows of a sheet start after two header rows.\<close>

fun load_days :: "workbook \<Rightarrow> string list \<Rightarrow> oslist \<Rightarrow> error + oslist" where
  "load_days workbook [] oslist = Inr oslist"
| "load_days workbook (daily # dailies) oslist =
     (case sheet_by_name workbook daily of
        Inl e \<Rightarrow> Inl e
      | Inr daily_sheet \<Rightarrow>
     (case get_date daily of
        Inl e \<Rightarrow> Inl e
      | Inr daily_date \<Rightarrow>
     (case process_rows daily_sheet daily_date [2..<nrows daily_sheet] oslist of
        Inl e \<Rightarrow> Inl e
      | Inr oslist' \<Rightarrow> load_days workbook dailies oslist')))"

definition load_counts :: "workbook \<Rightarrow> error + oslist" where
  "load_counts workbook =
     (let date_sheets = drop 3 (sheet_names workbook) in
      case build_dates [] date_sheets of
        Inl e \<Rightarrow> Inl e
      | Inr dates \<Rightarrow>
     (case sheet_by_name workbook ''OSVer'' of
        Inl e \<Rightarrow> Inl e
      | Inr ossheet \<Rightarrow>
     (case load_versions ossheet dates [1..<nrows ossheet] [] of
        Inl e \<Rightarrow> Inl e
      | Inr oslist \<Rightarrow> load_days workbook date_sheets (add_extra dates oslist))))"

section \<open>Quantities the properties are stated with\<close>

text \<open>
  The count a series holds in row \<open>i\<close> (row \<open>i\<close> of every series belongs to the \<open>i\<close>-th
  date sheet), and the count in the row the script addresses for a date, which is the
  first row holding that date. A key that is absent counts as 0.
\<close>

definition count_at :: "oslist \<Rightarrow> cell_value \<Rightarrow> nat \<Rightarrow> int" where
  "count_at oslist key i = (case map_of oslist key of None \<Rightarrow> 0 | Some arr \<Rightarrow> snd (arr ! i))"

definition day_count :: "oslist \<Rightarrow> cell_value \<Rightarrow> date \<Rightarrow> int" where
  "day_count oslist key daily_date =
     (case map_of oslist key of
        None \<Rightarrow> 0
      | Some arr \<Rightarrow>
          (case first_index (\<lambda>row. fst row = daily_date) arr of
             None \<Rightarrow> 0
           | Some dayindex \<Rightarrow> snd (arr ! dayindex)))"

text \<open>The sum, over the keys that satisfy \<open>P\<close>, of the counts in row \<open>i\<close>.\<close>

definition total :: "(cell_value \<Rightarrow> bool) \<Rightarrow> oslist \<Rightarrow> nat \<Rightarrow> int" where
  "total P oslist i = sum_list (map (\<lambda>(k, arr). if P k then snd (arr ! i) else 0) oslist)"

text \<open>The three groups of keys: exact versions, major versions, capability classes.\<close>

definition exact_version :: "cell_value \<Rightarrow> bool" where
  "exact_version k = (k \<notin> set (map Text extra_versions))"

definition major_version :: "cell_value \<Rightarrow> bool" where
  "major_version k = (k \<in> set [Text ''1.x'', Text ''2.x''])"

definition capability :: "cell_value \<Rightarrow> bool" where
  "capability k = (k \<in> set [Text ''mc-capable'', Text ''non-mc-capable''])"

text \<open>Every series has the dates \<open>D\<close> in its first column.\<close>

definition same_dates :: "date list \<Rightarrow> oslist \<Rightarrow> bool" where
  "same_dates D oslist = list_all (\<lambda>(k, arr). map fst arr = D) oslist"

text \<open>
  The values of the catalog column (column 0 of sheet \<^verbatim>\<open>OSVer\<close>, below its header row),
  and the dates of the date sheets, both in workbook order.
\<close>

definition catalog :: "workbook \<Rightarrow> cell_value list" where
  "catalog wb =
     (case sheet_by_name wb ''OSVer'' of
        Inl e \<Rightarrow> []
      | Inr sh \<Rightarrow>
          concat (map (\<lambda>r. case cell sh r 0 of Inl e \<Rightarrow> [] | Inr v \<Rightarrow> [v]) [1..<nrows sh]))"

definition sheet_dates :: "workbook \<Rightarrow> date list" where
  "sheet_dates wb =
     concat (map (\<lambda>n. case get_date n of Inl e \<Rightarrow> [] | Inr d \<Rightarrow> [d]) (drop 3 (sheet_names wb)))"

text \<open>
  The dictionary before the first daily row is read: the mapping that the second and
  third loop build from catalog values \<open>vs\<close>, written as one fold.
\<close>

definition initial :: "series \<Rightarrow> cell_value list \<Rightarrow> oslist" where
  "initial dates vs = foldl (\<lambda>acc v. AList.update v dates acc) [] (vs @ map Text extra_versions)"

text \<open>
  What a daily row contributes to the keys that satisfy \<open>P\<close>: its count, once for each of
  the three keys of the row (version, major version, capability) that satisfies \<open>P\<close>; a
  row that cannot be read contributes nothing. \<open>day_amount\<close> adds the rows of a date
  sheet, for the row \<open>i\<close> of the series that the sheet's date addresses, and
  \<open>expected_count\<close> adds the date sheets.
\<close>

definition row_amount :: "sheet \<Rightarrow> nat \<Rightarrow> (cell_value \<Rightarrow> bool) \<Rightarrow> int" where
  "row_amount sh r P =
     (case cell sh r 0 of
        Inr (Text v) \<Rightarrow>
          (case cell sh r 2 of
             Inr cv \<Rightarrow>
               (case py_int cv of
                  Inr c \<Rightarrow>
                    (case semver_match v MC_VERSION of
                       Inr mc \<Rightarrow>
                         sum_list (map (\<lambda>k. if P k then c else 0)
                           [Text v, Text (special_version v), Text (mc_capability mc)])
                     | Inl e \<Rightarrow> 0)
                | Inl e \<Rightarrow> 0)
           | Inl e \<Rightarrow> 0)
      | _ \<Rightarrow> 0)"

definition day_amount ::
  "workbook \<Rightarrow> date list \<Rightarrow> string \<Rightarrow> (cell_value \<Rightarrow> bool) \<Rightarrow> nat \<Rightarrow> int" where
  "day_amount wb D daily P i =
     (case sheet_by_name wb daily of
        Inl e \<Rightarrow> 0
      | Inr sh \<Rightarrow>
          (case get_date daily of
             Inl e \<Rightarrow> 0
           | Inr d \<Rightarrow>
               if first_index (\<lambda>x. x = d) D = Some i
               then sum_list (map (\<lambda>r. row_amount sh r P) [2..<nrows sh]) else 0))"

definition expected_count :: "workbook \<Rightarrow> (cell_value \<Rightarrow> bool) \<Rightarrow> nat \<Rightarrow> int" where
  "expected_count wb P i =
     sum_list (map (\<lambda>daily. day_amount wb (sheet_dates wb) daily P i) (drop 3 (sheet_names wb)))"

text \<open>Every count of a daily row that can be read is at least 0.\<close>

definition nonneg_counts :: "workbook \<Rightarrow> bool" where
  "nonneg_counts wb =
     list_all (\<lambda>daily.
       case sheet_by_name wb daily of
         Inl e \<Rightarrow> True
       | Inr sh \<Rightarrow>
           list_all (\<lambda>r.
             case cell sh r 2 of
               Inl e \<Rightarrow> True
             | Inr cv \<Rightarrow> (case py_int cv of Inl e \<Rightarrow> True | Inr c \<Rightarrow> 0 \<le> c))
             [2..<nrows sh])
       (drop 3 (sheet_names wb))"

section \<open>Example workbooks\<close>

text \<open>
  \<open>fleet\<close> has three versions in its catalog and two date sheets; \<open>small_fleet vs rows\<close>
  has the catalog values \<open>vs\<close> and one date sheet, \<open>day_sheet rows\<close>, named \<^verbatim>\<open>20200101\<close>,
  with the data rows \<open>rows\<close>.
\<close>

definition header :: "cell_value list" where
  "header = [Text ''version'', Text ''supervisor'', Text ''count'']"

definition fleet :: workbook where
  "fleet =
    [\<lparr>sheet_name = ''SupVer'', cell_values = []\<rparr>,
     \<lparr>sheet_name = ''OSVer'', cell_values =
        [[Text ''version''], [Text ''2.12.0''], [Text ''2.11.9''], [Text ''1.8.0'']]\<rparr>,
     \<lparr>sheet_name = ''Mods'', cell_values = []\<rparr>,
     \<lparr>sheet_name = ''20200101'', cell_values =
        [header, header, [Text ''2.12.0'', Text '''', Number 5],
         [Text ''1.8.0'', Text '''', Number 2]]\<rparr>,
     \<lparr>sheet_name = ''20200102'', cell_values =
        [header, header, [Text ''2.12.0'', Text '''', Number 5],
         [Text ''2.11.9'', Text '''', Number 3]]\<rparr>]"

definition fleet_counts :: oslist where
  "fleet_counts =
    [(Text ''2.12.0'', [(Date 2020 1 1, 5), (Date 2020 1 2, 5)]),
     (Text ''2.11.9'', [(Date 2020 1 1, 0), (Date 2020 1 2, 3)]),
     (Text ''1.8.0'', [(Date 2020 1 1, 2), (Date 2020 1 2, 0)]),
     (Text ''1.x'', [(Date 2020 1 1, 2), (Date 2020 1 2, 0)]),
     (Text ''2.x'', [(Date 2020 1 1, 5), (Date 2020 1 2, 8)]),
     (Text ''mc-capable'', [(Date 2020 1 1, 5), (Date 2020 1 2, 5)]),
     (Text ''non-mc-capable'', [(Date 2020 1 1, 2), (Date 2020 1 2, 3)])]"

definition day_sheet :: "cell_value list list \<Rightarrow> sheet" where
  "day_sheet rows = \<lparr>sheet_name = ''20200101'', cell_values = header # header # rows\<rparr>"

definition small_fleet :: "cell_value list \<Rightarrow> cell_value list list \<Rightarrow> workbook" where
  "small_fleet vs rows =
    [\<lparr>sheet_name = ''SupVer'', cell_values = []\<rparr>,
     \<lparr>sheet_name = ''OSVer'', cell_values = [Text ''version''] # map (\<lambda>v. [v]) vs\<rparr>,
     \<lparr>sheet_name = ''Mods'', cell_values = []\<rparr>,
     day_sheet rows]"

text \<open>The dictionary of \<open>small_fleet vs rows\<close> before its daily rows are read.\<close>

definition zero_counts :: "cell_value list \<Rightarrow> oslist" where
  "zero_counts vs = initial [(Date 2020 1 1, 0)] vs"

section \<open>Auxiliary facts\<close>

lemma first_index_SomeD:
  "first_index P xs = Some j \<Longrightarrow> j < length xs \<and> P (xs ! j)"
  by (induction xs arbitrary: j) (auto split: if_splits)

lemma first_index_map:
  "first_index (\<lambda>row. fst row = d) arr = first_index (\<lambda>x. x = d) (map fst arr)"
  by (induction arr) auto

lemma add_count_InrD:
  assumes "add_count os k d c = Inr os'"
  obtains arr j where "map_of os k = Some arr"
    and "first_index (\<lambda>x. x = d) (map fst arr) = Some j"
    and "j < length arr"
    and "os' = AList.update k (arr[j := (fst (arr ! j), snd (arr ! j) + c)]) os"
proof -
  from assms obtain arr where a: "map_of os k = Some arr"
    unfolding add_count_def by (auto split: option.splits)
  from assms a obtain j where j: "first_index (\<lambda>row. fst row = d) arr = Some j"
    unfolding add_count_def by (auto split: option.splits)
  from assms a j have "os' = AList.update k (arr[j := (fst (arr ! j), snd (arr ! j) + c)]) os"
    unfolding add_count_def by simp
  moreover from j have "j < length arr" by (auto dest: first_index_SomeD)
  moreover from j have "first_index (\<lambda>x. x = d) (map fst arr) = Some j"
    by (simp add: first_index_map)
  ultimately show ?thesis using a that by blast
qed

lemma total_update:
  "map_of os k = Some arr \<Longrightarrow>
   total P (AList.update k arr' os) i =
     total P os i + (if P k then snd (arr' ! i) - snd (arr ! i) else 0)"
  unfolding total_def by (induction os) (auto split: if_splits)

lemma keys_update_present:
  "map_of os k = Some arr \<Longrightarrow> map fst (AList.update k arr' os) = map fst os"
  by (induction os) (auto split: if_splits)

lemma set_update_subset:
  "(k', a) \<in> set (AList.update k arr' os) \<Longrightarrow> (k', a) \<in> set os \<or> (k' = k \<and> a = arr')"
  by (induction os) (auto split: if_splits)

lemma same_datesD: "same_dates D os \<Longrightarrow> map_of os k = Some arr \<Longrightarrow> map fst arr = D"
  unfolding same_dates_def list_all_iff by (auto dest: map_of_SomeD)

lemma same_dates_update:
  "same_dates D os \<Longrightarrow> map fst arr' = D \<Longrightarrow> same_dates D (AList.update k arr' os)"
  unfolding same_dates_def list_all_iff by (auto dest: set_update_subset)

lemma map_fst_bump: "j < length arr \<Longrightarrow> map fst (arr[j := (fst (arr ! j), x)]) = map fst arr"
  by (simp add: map_update list_update_same_conv)

lemma add_count_effect:
  assumes "add_count os k d c = Inr os'" and "same_dates D os"
  shows "\<exists>j. first_index (\<lambda>x. x = d) D = Some j \<and> j < length D \<and> same_dates D os' \<and>
           map fst os' = map fst os \<and>
           (\<forall>P i. total P os' i = total P os i + (if P k \<and> i = j then c else 0))"
proof -
  from assms(1) obtain arr j where a: "map_of os k = Some arr"
    and j: "first_index (\<lambda>x. x = d) (map fst arr) = Some j" and jl: "j < length arr"
    and os': "os' = AList.update k (arr[j := (fst (arr ! j), snd (arr ! j) + c)]) os"
    by (rule add_count_InrD)
  have D: "map fst arr = D" using assms(2) a by (rule same_datesD)
  have len: "length D = length arr" using D by (metis length_map)
  have t: "total P os' i = total P os i + (if P k \<and> i = j then c else 0)" for P i
    unfolding os' using jl by (simp add: total_update [OF a] nth_list_update)
  have "same_dates D os'" unfolding os'
    using assms(2) by (rule same_dates_update) (simp add: map_fst_bump jl D)
  moreover have "map fst os' = map fst os" unfolding os' using a by (rule keys_update_present)
  ultimately show ?thesis using j jl t D len by auto
qed

lemma semver_extra: "v \<in> set extra_versions \<Longrightarrow> semver_match v MC_VERSION = Inl ValueError"
proof -
  have "list_all (\<lambda>v. semver_match v MC_VERSION = Inl ValueError) extra_versions"
    by code_simp
  then show "v \<in> set extra_versions \<Longrightarrow> semver_match v MC_VERSION = Inl ValueError"
    by (simp add: list_all_iff)
qed

lemma process_row_InrD:
  assumes "process_row sh d r os = Inr os'"
  obtains v cv c mc os1 os2 where "cell sh r 0 = Inr (Text v)" and "cell sh r 2 = Inr cv"
    and "py_int cv = Inr c" and "v \<noteq> []" and "semver_match v MC_VERSION = Inr mc"
    and "add_count os (Text v) d c = Inr os1"
    and "add_count os1 (Text (special_version v)) d c = Inr os2"
    and "add_count os2 (Text (mc_capability mc)) d c = Inr os'"
  using assms unfolding process_row_def
  by (auto split: sum.splits cell_value.splits if_splits)

lemma add_count_keys:
  assumes "add_count os k d c = Inr os'"
  shows "map fst os' = map fst os \<and> k \<in> set (map fst os)"
proof -
  from assms obtain arr j where a: "map_of os k = Some arr"
    and os': "os' = AList.update k (arr[j := (fst (arr ! j), snd (arr ! j) + c)]) os"
    by (rule add_count_InrD)
  from a have "k \<in> fst ` set os" by (metis map_of_eq_None_iff option.distinct(1))
  then show ?thesis unfolding os' using a by (simp add: keys_update_present)
qed

lemma process_row_effect:
  assumes "process_row sh d r os = Inr os'" and "same_dates D os"
  shows "\<exists>v cv c mc j. cell sh r 0 = Inr (Text v) \<and> cell sh r 2 = Inr cv \<and> py_int cv = Inr c \<and>
           semver_match v MC_VERSION = Inr mc \<and> first_index (\<lambda>x. x = d) D = Some j \<and>
           j < length D \<and> same_dates D os' \<and>
           (\<forall>P i. total P os' i = total P os i +
              (if i = j then (if P (Text v) then c else 0)
                 + (if P (Text (special_version v)) then c else 0)
                 + (if P (Text (mc_capability mc)) then c else 0) else 0))"
proof -
  from assms(1) obtain v cv c mc os1 os2 where
    v: "cell sh r 0 = Inr (Text v)" and cv: "cell sh r 2 = Inr cv" and c: "py_int cv = Inr c"
    and mc: "semver_match v MC_VERSION = Inr mc"
    and a1: "add_count os (Text v) d c = Inr os1"
    and a2: "add_count os1 (Text (special_version v)) d c = Inr os2"
    and a3: "add_count os2 (Text (mc_capability mc)) d c = Inr os'"
    by (rule process_row_InrD)
  from add_count_effect [OF a1 assms(2)] obtain j where
    j: "first_index (\<lambda>x. x = d) D = Some j" "j < length D" and s1: "same_dates D os1"
    and t1: "\<And>P i. total P os1 i = total P os i + (if P (Text v) \<and> i = j then c else 0)"
    by blast
  from add_count_effect [OF a2 s1] j obtain s2: "same_dates D os2"
    and t2: "\<And>P i. total P os2 i =
               total P os1 i + (if P (Text (special_version v)) \<and> i = j then c else 0)"
    by auto
  from add_count_effect [OF a3 s2] j obtain s3: "same_dates D os'"
    and t3: "\<And>P i. total P os' i =
               total P os2 i + (if P (Text (mc_capability mc)) \<and> i = j then c else 0)"
    by auto
  have "total P os' i = total P os i +
              (if i = j then (if P (Text v) then c else 0)
                 + (if P (Text (special_version v)) then c else 0)
                 + (if P (Text (mc_capability mc)) then c else 0) else 0)" for P i
    by (simp add: t1 t2 t3)
  with v cv c mc j s3 show ?thesis by blast
qed

lemma process_row_keys:
  assumes "process_row sh d r os = Inr os'"
  shows "map fst os' = map fst os"
proof -
  from assms obtain v c mc os1 os2 where
        a1: "add_count os (Text v) d c = Inr os1"
    and a2: "add_count os1 (Text (special_version v)) d c = Inr os2"
    and a3: "add_count os2 (Text (mc_capability mc)) d c = Inr os'"
    by (rule process_row_InrD)
  show ?thesis using add_count_keys [OF a1] add_count_keys [OF a2] add_count_keys [OF a3] by simp
qed

lemma semver_exact: "semver_match v MC_VERSION = Inr mc \<Longrightarrow> exact_version (Text v)"
  unfolding exact_version_def using semver_extra [of v] by auto

lemma special_major: "major_version (Text (special_version v)) \<and> \<not> exact_version (Text (special_version v))
   \<and> \<not> capability (Text (special_version v))"
  by (simp add: major_version_def special_version_def exact_version_def extra_versions_def capability_def)

lemma mc_capab: "capability (Text (mc_capability mc)) \<and> \<not> exact_version (Text (mc_capability mc))
   \<and> \<not> major_version (Text (mc_capability mc))"
  by (simp add: major_version_def mc_capability_def exact_version_def extra_versions_def capability_def)

lemma exact_not_derived: "exact_version k \<Longrightarrow> \<not> major_version k \<and> \<not> capability k"
  by (auto simp add: major_version_def exact_version_def extra_versions_def capability_def)

lemma process_rows_preserves:
  assumes "process_rows sh d rs os = Inr os'" and "I os"
    and "\<And>r os os1. process_row sh d r os = Inr os1 \<Longrightarrow> I os \<Longrightarrow> I os1"
  shows "I os'"
  using assms(1,2)
proof (induction rs arbitrary: os)
  case Nil
  then show ?case by simp
next
  case (Cons r rs)
  then show ?case using assms(3) by (auto split: sum.splits)
qed

lemma load_days_preserves:
  assumes "load_days wb ds os = Inr os'" and "I os"
    and "\<And>sh d r os os1. process_row sh d r os = Inr os1 \<Longrightarrow> I os \<Longrightarrow> I os1"
  shows "I os'"
  using assms(1,2)
proof (induction ds arbitrary: os)
  case Nil
  then show ?case by simp
next
  case (Cons daily ds)
  from Cons.prems(1) obtain sh d os1 where
    "process_rows sh d [2..<nrows sh] os = Inr os1" and "load_days wb ds os1 = Inr os'"
    by (auto split: sum.splits)
  moreover from this(1) Cons.prems(2) have "I os1"
    by (rule process_rows_preserves) (rule assms(3))
  ultimately show ?case using Cons.IH by blast
qed

lemma process_row_amount:
  assumes "process_row sh d r os = Inr os'" and "same_dates D os"
  shows "same_dates D os' \<and>
         (\<forall>P i. total P os' i = total P os i +
            (if first_index (\<lambda>x. x = d) D = Some i then row_amount sh r P else 0))"
proof -
  from process_row_effect [OF assms] obtain v cv c mc j where
    "cell sh r 0 = Inr (Text v)" "cell sh r 2 = Inr cv" "py_int cv = Inr c"
    "semver_match v MC_VERSION = Inr mc" and j: "first_index (\<lambda>x. x = d) D = Some j"
    and s: "same_dates D os'"
    and t: "\<And>P i. total P os' i = total P os i +
              (if i = j then (if P (Text v) then c else 0)
                 + (if P (Text (special_version v)) then c else 0)
                 + (if P (Text (mc_capability mc)) then c else 0) else 0)"
    by blast
  then have "row_amount sh r P = (if P (Text v) then c else 0)
                 + (if P (Text (special_version v)) then c else 0)
                 + (if P (Text (mc_capability mc)) then c else 0)" for P
    by (simp add: row_amount_def)
  then show ?thesis using s t j by auto
qed

lemma process_rows_amount:
  "process_rows sh d rs os = Inr os' \<Longrightarrow> same_dates D os \<Longrightarrow>
   same_dates D os' \<and>
   (\<forall>P i. total P os' i = total P os i +
      (if first_index (\<lambda>x. x = d) D = Some i
       then sum_list (map (\<lambda>r. row_amount sh r P) rs) else 0))"
proof (induction rs arbitrary: os)
  case Nil
  then show ?case by simp
next
  case (Cons r rs)
  from Cons.prems(1) obtain os1 where r: "process_row sh d r os = Inr os1"
    and rs: "process_rows sh d rs os1 = Inr os'"
    by (auto split: sum.splits)
  from process_row_amount [OF r Cons.prems(2)] Cons.IH [OF rs]
  show ?case by simp
qed

lemma load_days_amount:
  "load_days wb ds os = Inr os' \<Longrightarrow> same_dates D os \<Longrightarrow>
   same_dates D os' \<and>
   (\<forall>P i. total P os' i = total P os i + sum_list (map (\<lambda>daily. day_amount wb D daily P i) ds))"
proof (induction ds arbitrary: os)
  case Nil
  then show ?case by simp
next
  case (Cons daily ds)
  from Cons.prems(1) obtain sh d os1 where sh: "sheet_by_name wb daily = Inr sh"
    and d: "get_date daily = Inr d"
    and rows: "process_rows sh d [2..<nrows sh] os = Inr os1"
    and rest: "load_days wb ds os1 = Inr os'"
    by (auto split: sum.splits)
  from process_rows_amount [OF rows Cons.prems(2)] Cons.IH [OF rest]
  show ?case by (simp add: day_amount_def sh d)
qed

lemma build_dates_InrD:
  "build_dates acc ns = Inr dates \<Longrightarrow>
   \<exists>ds. map get_date ns = map Inr ds \<and> dates = acc @ map (\<lambda>d. (d, 0)) ds"
proof (induction ns arbitrary: acc)
  case Nil
  then show ?case by simp
next
  case (Cons n ns)
  from Cons.prems obtain d where d: "get_date n = Inr d"
    and rest: "build_dates (acc @ [(d, 0)]) ns = Inr dates"
    by (auto split: sum.splits)
  from Cons.IH [OF rest] obtain ds where "map get_date ns = map Inr ds"
    and "dates = (acc @ [(d, 0)]) @ map (\<lambda>d. (d, 0)) ds" by blast
  then have "map get_date (n # ns) = map Inr (d # ds) \<and> dates = acc @ map (\<lambda>d. (d, 0)) (d # ds)"
    using d by simp
  then show ?case by blast
qed

lemma load_versions_InrD:
  "load_versions sh dates rs os = Inr os' \<Longrightarrow>
   \<exists>vs. map (\<lambda>r. cell sh r 0) rs = map Inr vs \<and>
        os' = foldl (\<lambda>acc v. AList.update v dates acc) os vs"
proof (induction rs arbitrary: os)
  case Nil
  then show ?case by simp
next
  case (Cons r rs)
  from Cons.prems obtain v where v: "cell sh r 0 = Inr v"
    and rest: "load_versions sh dates rs (AList.update v dates os) = Inr os'"
    by (auto split: sum.splits)
  from Cons.IH [OF rest] obtain vs where "map (\<lambda>r. cell sh r 0) rs = map Inr vs"
    and "os' = foldl (\<lambda>acc v. AList.update v dates acc) (AList.update v dates os) vs" by blast
  then have "map (\<lambda>r. cell sh r 0) (r # rs) = map Inr (v # vs) \<and>
      os' = foldl (\<lambda>acc v. AList.update v dates acc) os (v # vs)"
    using v by simp
  then show ?case by blast
qed

lemma add_extra_foldl:
  "add_extra dates os = foldl (\<lambda>acc v. AList.update v dates acc) os (map Text extra_versions)"
  by (simp add: add_extra_def foldl_map)

lemma foldl_update_keys:
  "set (map fst (foldl (\<lambda>acc v. AList.update v dates acc) os vs)) = set (map fst os) \<union> set vs"
  by (induction vs arbitrary: os) (auto simp: dom_update)

lemma foldl_update_distinct:
  "distinct (map fst os) \<Longrightarrow> distinct (map fst (foldl (\<lambda>acc v. AList.update v dates acc) os vs))"
  by (induction vs arbitrary: os) (auto simp: distinct_update)

lemma foldl_update_all:
  "list_all (\<lambda>(k, arr). arr = dates) os \<Longrightarrow>
   list_all (\<lambda>(k, arr). arr = dates) (foldl (\<lambda>acc v. AList.update v dates acc) os vs)"
proof (induction vs arbitrary: os)
  case Nil
  then show ?case by simp
next
  case (Cons v vs)
  have "list_all (\<lambda>(k, arr). arr = dates) (AList.update v dates os)"
    using Cons.prems unfolding list_all_iff by (auto dest: set_update_subset)
  then show ?case using Cons.IH by simp
qed

lemma load_counts_InrD:
  assumes "load_counts wb = Inr os"
  obtains ds sh vs where "map get_date (drop 3 (sheet_names wb)) = map Inr ds"
    and "sheet_by_name wb ''OSVer'' = Inr sh"
    and "map (\<lambda>r. cell sh r 0) [1..<nrows sh] = map Inr vs"
    and "load_days wb (drop 3 (sheet_names wb)) (initial (map (\<lambda>d. (d, 0)) ds) vs) = Inr os"
proof -
  from assms obtain dates sh os1 where b: "build_dates [] (drop 3 (sheet_names wb)) = Inr dates"
    and sh: "sheet_by_name wb ''OSVer'' = Inr sh"
    and lv: "load_versions sh dates [1..<nrows sh] [] = Inr os1"
    and ld: "load_days wb (drop 3 (sheet_names wb)) (add_extra dates os1) = Inr os"
    unfolding load_counts_def by (auto simp: Let_def split: sum.splits)
  from build_dates_InrD [OF b] obtain ds where ds: "map get_date (drop 3 (sheet_names wb)) = map Inr ds"
    and dates: "dates = map (\<lambda>d. (d, 0)) ds" by auto
  from load_versions_InrD [OF lv] obtain vs where vs: "map (\<lambda>r. cell sh r 0) [1..<nrows sh] = map Inr vs"
    and os1: "os1 = foldl (\<lambda>acc v. AList.update v dates acc) [] vs" by blast
  have "add_extra dates os1 = initial dates vs"
    by (simp add: add_extra_foldl os1 initial_def)
  with ld dates have "load_days wb (drop 3 (sheet_names wb)) (initial (map (\<lambda>d. (d, 0)) ds) vs) = Inr os"
    by simp
  with ds sh vs show ?thesis using that by blast
qed

lemma initial_keys: "set (map fst (initial dates vs)) = set vs \<union> set (map Text extra_versions)"
  unfolding initial_def by (subst foldl_update_keys) simp

lemma initial_distinct: "distinct (map fst (initial dates vs))"
  unfolding initial_def by (rule foldl_update_distinct) simp

lemma initial_all: "list_all (\<lambda>(k, arr). arr = dates) (initial dates vs)"
  unfolding initial_def by (rule foldl_update_all) simp

lemma initial_same_dates: "same_dates ds (initial (map (\<lambda>d. (d, 0)) ds) vs)"
  using initial_all [of "map (\<lambda>d. (d, 0)) ds" vs]
  unfolding same_dates_def list_all_iff by (auto simp: comp_def)

lemma initial_total:
  assumes "i < length ds"
  shows "total P (initial (map (\<lambda>d. (d, 0)) ds) vs) i = 0"
proof -
  have "\<forall>x\<in>set (initial (map (\<lambda>d. (d, 0)) ds) vs). (case x of (k, arr) \<Rightarrow> if P k then snd (arr ! i) else 0) = (0::int)"
    using initial_all [of "map (\<lambda>d. (d, 0)) ds" vs] assms
    unfolding list_all_iff by auto
  then show ?thesis unfolding total_def
    by (simp cong: map_cong)
qed

lemma load_days_keys:
  assumes "load_days wb ds os = Inr os'"
  shows "map fst os' = map fst os"
  using assms
  by (rule load_days_preserves [where I = "\<lambda>x. map fst x = map fst os"])
     (auto dest: process_row_keys)

lemma concat_Inr:
  "map f ns = map Inr ds \<Longrightarrow> concat (map (\<lambda>n. case f n of Inl e \<Rightarrow> [] | Inr d \<Rightarrow> [d]) ns) = ds"
  by (induction ns arbitrary: ds) auto

lemma load_counts_total:
  assumes "load_counts wb = Inr os" and "i < length (drop 3 (sheet_names wb))"
  shows "total P os i = expected_count wb P i"
proof -
  from assms(1) obtain ds sh vs where ds: "map get_date (drop 3 (sheet_names wb)) = map Inr ds"
    and ld: "load_days wb (drop 3 (sheet_names wb)) (initial (map (\<lambda>d. (d, 0)) ds) vs) = Inr os"
    by (rule load_counts_InrD)
  from ds have sd: "sheet_dates wb = ds" unfolding sheet_dates_def by (rule concat_Inr)
  from ds have "length ds = length (drop 3 (sheet_names wb))" by (metis length_map)
  with assms(2) have i: "i < length ds" by simp
  from load_days_amount [OF ld initial_same_dates]
  show ?thesis by (simp add: initial_total [OF i] expected_count_def sd)
qed

lemma total_single:
  "distinct (map fst os) \<Longrightarrow> total (\<lambda>k. k = a) os i = count_at os a i"
proof (induction os)
  case Nil
  then show ?case by (simp add: total_def count_at_def)
next
  case (Cons p os)
  obtain k arr where p: "p = (k, arr)" by (cases p)
  show ?case
  proof (cases "k = a")
    case True
    with Cons.prems p have "a \<notin> fst ` set os" by auto
    then have "\<forall>x\<in>set os. (case x of (k, arr) \<Rightarrow> if k = a then snd (arr ! i) else 0) = (0::int)"
      by force
    then have "total (\<lambda>k. k = a) os i = 0" unfolding total_def by (simp cong: map_cong)
    then show ?thesis using True p by (simp add: total_def count_at_def)
  next
    case False
    then show ?thesis using Cons p by (simp add: total_def count_at_def)
  qed
qed

lemma total_pair:
  assumes "distinct (map fst os)" and "a \<noteq> b"
  shows "total (\<lambda>k. k \<in> set [a, b]) os i = count_at os a i + count_at os b i"
proof -
  have "total (\<lambda>k. k \<in> set [a, b]) os i = total (\<lambda>k. k = a) os i + total (\<lambda>k. k = b) os i"
    unfolding total_def using assms(2) by (induction os) auto
  then show ?thesis by (simp add: total_single [OF assms(1)])
qed

lemma row_amount_balance:
  "row_amount sh r major_version = row_amount sh r exact_version \<and>
   row_amount sh r capability = row_amount sh r exact_version"
  unfolding row_amount_def
  using special_major mc_capab
  by (auto split: sum.splits cell_value.splits dest!: semver_exact dest: exact_not_derived)

lemma expected_balance:
  "expected_count wb exact_version i = expected_count wb major_version i \<and>
   expected_count wb exact_version i = expected_count wb capability i"
proof -
  have "day_amount wb D daily major_version i = day_amount wb D daily exact_version i \<and>
        day_amount wb D daily capability i = day_amount wb D daily exact_version i" for D daily
    unfolding day_amount_def by (simp add: row_amount_balance split: sum.splits)
  then show ?thesis unfolding expected_count_def by simp
qed

lemma load_counts_keys:
  assumes "load_counts wb = Inr os"
  obtains sh vs where "sheet_by_name wb ''OSVer'' = Inr sh"
    and "map (\<lambda>r. cell sh r 0) [1..<nrows sh] = map Inr vs"
    and "set (map fst os) = set vs \<union> set (map Text extra_versions)"
    and "distinct (map fst os)"
    and "same_dates (sheet_dates wb) os"
    and "map get_date (drop 3 (sheet_names wb)) = map Inr (sheet_dates wb)"
proof -
  from assms(1) obtain ds sh vs where ds: "map get_date (drop 3 (sheet_names wb)) = map Inr ds"
    and sh: "sheet_by_name wb ''OSVer'' = Inr sh"
    and vs: "map (\<lambda>r. cell sh r 0) [1..<nrows sh] = map Inr vs"
    and ld: "load_days wb (drop 3 (sheet_names wb)) (initial (map (\<lambda>d. (d, 0)) ds) vs) = Inr os"
    by (rule load_counts_InrD)
  from ds have sd: "sheet_dates wb = ds" unfolding sheet_dates_def by (rule concat_Inr)
  from load_days_keys [OF ld] have k: "map fst os = map fst (initial (map (\<lambda>d. (d, 0)) ds) vs)" .
  have "set (map fst os) = set vs \<union> set (map Text extra_versions)"
    unfolding k by (rule initial_keys)
  moreover have "distinct (map fst os)" unfolding k by (rule initial_distinct)
  moreover have "same_dates (sheet_dates wb) os"
    using load_days_amount [OF ld initial_same_dates] sd by simp
  ultimately show ?thesis using sh vs ds sd that by blast
qed

lemma add_count_day_count:
  assumes "add_count os k d c = Inr os'"
  shows "day_count os' k' d = day_count os k' d + (if k' = k then c else 0)"
proof -
  from assms obtain arr j where a: "map_of os k = Some arr"
    and j: "first_index (\<lambda>x. x = d) (map fst arr) = Some j" and jl: "j < length arr"
    and os': "os' = AList.update k (arr[j := (fst (arr ! j), snd (arr ! j) + c)]) os"
    by (rule add_count_InrD)
  have m: "map_of os' = (map_of os)(k \<mapsto> arr[j := (fst (arr ! j), snd (arr ! j) + c)])"
    unfolding os' by (rule update_conv')
  show ?thesis
  proof (cases "k' = k")
    case True
    then show ?thesis
      using a j jl by (simp add: day_count_def m first_index_map map_fst_bump)
  next
    case False
    then show ?thesis by (simp add: day_count_def m)
  qed
qed

lemma process_row_day_count:
  assumes "process_row sh d r os = Inr os'"
  shows "\<exists>v cv c mc. cell sh r 0 = Inr (Text v) \<and> cell sh r 2 = Inr cv \<and> py_int cv = Inr c \<and>
           v \<noteq> [] \<and> semver_match v MC_VERSION = Inr mc \<and>
           (\<forall>k. day_count os' k d = day_count os k d + (if k = Text v then c else 0)
                 + (if k = Text (special_version v) then c else 0)
                 + (if k = Text (mc_capability mc) then c else 0))"
proof -
  from assms obtain v cv c mc os1 os2 where
    v: "cell sh r 0 = Inr (Text v)" and cv: "cell sh r 2 = Inr cv" and c: "py_int cv = Inr c"
    and ne: "v \<noteq> []"
    and mc: "semver_match v MC_VERSION = Inr mc"
    and a1: "add_count os (Text v) d c = Inr os1"
    and a2: "add_count os1 (Text (special_version v)) d c = Inr os2"
    and a3: "add_count os2 (Text (mc_capability mc)) d c = Inr os'"
    by (rule process_row_InrD)
  have "day_count os' k d = day_count os k d + (if k = Text v then c else 0)
                 + (if k = Text (special_version v) then c else 0)
                 + (if k = Text (mc_capability mc) then c else 0)" for k
    by (simp add: add_count_day_count [OF a1] add_count_day_count [OF a2] add_count_day_count [OF a3])
  with v cv c ne mc show ?thesis by blast
qed

lemma process_rows_all:
  "process_rows sh d rs os = Inr os' \<Longrightarrow> r \<in> set rs \<Longrightarrow>
   \<exists>os0 os1. process_row sh d r os0 = Inr os1 \<and> map fst os0 = map fst os"
proof (induction rs arbitrary: os)
  case Nil
  then show ?case by simp
next
  case (Cons x rs)
  from Cons.prems(1) obtain os1 where x: "process_row sh d x os = Inr os1"
    and rest: "process_rows sh d rs os1 = Inr os'"
    by (auto split: sum.splits)
  show ?case
  proof (cases "r = x")
    case True
    with x show ?thesis by blast
  next
    case False
    with Cons.prems(2) have "r \<in> set rs" by simp
    from Cons.IH [OF rest this] process_row_keys [OF x] show ?thesis by auto
  qed
qed

lemma process_rows_keys:
  assumes "process_rows sh d rs os = Inr os'"
  shows "map fst os' = map fst os"
  using assms
  by (rule process_rows_preserves [where I = "\<lambda>x. map fst x = map fst os"])
     (auto dest: process_row_keys)

lemma load_days_all:
  "load_days wb ds os = Inr os' \<Longrightarrow> daily \<in> set ds \<Longrightarrow> sheet_by_name wb daily = Inr sh \<Longrightarrow>
   r \<in> set [2..<nrows sh] \<Longrightarrow>
   \<exists>d os0 os1. get_date daily = Inr d \<and> process_row sh d r os0 = Inr os1 \<and> map fst os0 = map fst os"
proof (induction ds arbitrary: os)
  case Nil
  then show ?case by simp
next
  case (Cons x ds)
  from Cons.prems(1) obtain sh' d os1 where sh': "sheet_by_name wb x = Inr sh'"
    and d: "get_date x = Inr d"
    and rows: "process_rows sh' d [2..<nrows sh'] os = Inr os1"
    and rest: "load_days wb ds os1 = Inr os'"
    by (auto split: sum.splits)
  show ?case
  proof (cases "daily = x")
    case True
    with sh' Cons.prems(3) have "sh' = sh" by simp
    with rows Cons.prems(4) d True process_rows_all [of sh d "[2..<nrows sh]" os os1 r]
    show ?thesis by blast
  next
    case False
    with Cons.prems(2) have "daily \<in> set ds" by simp
    from Cons.IH [OF rest this Cons.prems(3,4)] process_rows_keys [OF rows]
    show ?thesis by auto
  qed
qed

lemma load_counts_rows:
  assumes "load_counts wb = Inr os" and "daily \<in> set (drop 3 (sheet_names wb))"
    and "sheet_by_name wb daily = Inr sh" and "r \<in> set [2..<nrows sh]"
  shows "\<exists>d os0 os1. get_date daily = Inr d \<and> process_row sh d r os0 = Inr os1 \<and>
           map fst os0 = map fst os"
proof -
  from assms(1) obtain ds sh' vs where
    ld: "load_days wb (drop 3 (sheet_names wb)) (initial (map (\<lambda>d. (d, 0)) ds) vs) = Inr os"
    by (rule load_counts_InrD)
  from load_days_all [OF ld assms(2,3,4)] load_days_keys [OF ld] show ?thesis by auto
qed

lemma catalog_eq:
  "sheet_by_name wb ''OSVer'' = Inr sh \<Longrightarrow> map (\<lambda>r. cell sh r 0) [1..<nrows sh] = map Inr vs \<Longrightarrow>
   catalog wb = vs"
  unfolding catalog_def by (simp add: concat_Inr)





section \<open>The script on the example workbooks\<close>

lemmas date_defs = get_date_def strptime_match_def month_alts_def day_alts_def is_digit_def
  make_date_def valid_date_def group_int_def nat_of_digits_def digit_val_def days_in_month_def
  is_leap_def

lemmas semver_defs = semver_match_def MC_VERSION_def semver_parse_def parse_tail_def
  numeric_id_def is_digit_def nat_of_digits_def digit_val_def semver_compare_def cmp_nat_def
  possibilities_def Let_def

lemmas run_defs = load_counts_def sheet_names_def sheet_by_name_def nrows_def cell_def
  process_row_def add_count_def add_extra_def extra_versions_def special_version_def
  mc_capability_def header_def py_int_def small_fleet_def day_sheet_def upt_conv_Cons

lemma date_20200101: "get_date ''20200101'' = Inr (Date 2020 1 1)"
  by (simp add: date_defs)

lemma date_20200102: "get_date ''20200102'' = Inr (Date 2020 1 2)"
  by (simp add: date_defs)

lemma semver_2_12_0: "semver_match ''2.12.0'' MC_VERSION = Inr True"
  by (simp add: semver_defs)

lemma semver_2_11_9: "semver_match ''2.11.9'' MC_VERSION = Inr False"
  by (simp add: semver_defs)

lemma semver_1_8_0: "semver_match ''1.8.0'' MC_VERSION = Inr False"
  by (simp add: semver_defs)

lemma fleet_loads: "load_counts fleet = Inr fleet_counts"
  by (simp add: run_defs fleet_def fleet_counts_def date_20200101 date_20200102
      semver_2_12_0 semver_2_11_9 semver_1_8_0)

lemma fleet_sheets: "drop 3 (sheet_names fleet) = [''20200101'', ''20200102'']"
  by (simp add: fleet_def sheet_names_def)

section \<open>Facts about the date extractor\<close>























section \<open>Further auxiliary facts\<close>

lemma card_extra: "card (set (map Text extra_versions)) = 4"
  by (simp add: extra_versions_def)

lemma keys_count:
  "distinct vs \<and> set vs \<inter> set (map Text extra_versions) = {} \<Longrightarrow>
   card (set vs \<union> set (map Text extra_versions)) = length vs + 4"
  by (simp add: card_Un_disjoint distinct_card card_extra del: set_map)

lemma keys_count_less:
  assumes "\<not> distinct vs \<or> set vs \<inter> set (map Text extra_versions) \<noteq> {}"
  shows "card (set vs \<union> set (map Text extra_versions)) < length vs + 4"
proof -
  let ?E = "set (map Text extra_versions)"
  have u: "card (set vs \<union> ?E) + card (set vs \<inter> ?E) = card (set vs) + 4"
    using card_Un_Int [of "set vs" ?E] by (simp add: card_extra del: set_map)
  have le: "card (set vs) \<le> length vs" by (rule card_length)
  from assms show ?thesis
  proof
    assume "\<not> distinct vs"
    then have "card (set vs) \<noteq> length vs" using card_distinct by blast
    with le u show ?thesis by linarith
  next
    assume "set vs \<inter> ?E \<noteq> {}"
    then have "0 < card (set vs \<inter> ?E)" by (simp add: card_gt_0_iff del: set_map)
    with le u show ?thesis by linarith
  qed
qed

lemma fleet_catalog: "catalog fleet = [Text ''2.12.0'', Text ''2.11.9'', Text ''1.8.0'']"
  by (simp add: catalog_def run_defs fleet_def)

lemma dup_loads:
  "load_counts (small_fleet [Text ''2.12.0'', Text ''2.12.0''] [[Text ''2.12.0'', Text '''', Number 4]]) =
   Inr [(Text ''2.12.0'', [(Date 2020 1 1, 4)]), (Text ''1.x'', [(Date 2020 1 1, 0)]),
        (Text ''2.x'', [(Date 2020 1 1, 4)]), (Text ''mc-capable'', [(Date 2020 1 1, 4)]),
        (Text ''non-mc-capable'', [(Date 2020 1 1, 0)])]"
  by (simp add: run_defs date_20200101 semver_2_12_0)

lemma dup_catalog:
  "catalog (small_fleet [Text ''2.12.0'', Text ''2.12.0''] rows) = [Text ''2.12.0'', Text ''2.12.0'']"
  by (simp add: catalog_def small_fleet_def sheet_by_name_def cell_def nrows_def upt_conv_Cons)

lemma row_amount_nonneg:
  assumes "case cell sh r 2 of Inl e \<Rightarrow> True
           | Inr cv \<Rightarrow> (case py_int cv of Inl e \<Rightarrow> True | Inr c \<Rightarrow> 0 \<le> c)"
  shows "0 \<le> row_amount sh r P"
  using assms unfolding row_amount_def by (auto split: sum.splits cell_value.splits)

lemma expected_nonneg:
  assumes "nonneg_counts wb"
  shows "0 \<le> expected_count wb P i"
proof -
  have "0 \<le> day_amount wb D daily P i" if "daily \<in> set (drop 3 (sheet_names wb))" for D daily
  proof (cases "sheet_by_name wb daily")
    case (Inl e)
    then show ?thesis by (simp add: day_amount_def)
  next
    case (Inr sh)
    with assms that have "\<forall>r\<in>set [2..<nrows sh]. 0 \<le> row_amount sh r P"
      unfolding nonneg_counts_def list_all_iff by (auto intro!: row_amount_nonneg)
    then have "0 \<le> sum_list (map (\<lambda>r. row_amount sh r P) [2..<nrows sh])"
      by (intro sum_list_nonneg) auto
    with Inr show ?thesis by (simp add: day_amount_def split: sum.splits)
  qed
  then show ?thesis unfolding expected_count_def by (intro sum_list_nonneg) auto
qed

lemma fleet_nonneg: "nonneg_counts fleet"
  by (simp add: nonneg_counts_def run_defs fleet_def)

lemma ceiling_minus_one: "\<lceil>- 1 :: rat\<rceil> = - 1"
  using ceiling_of_int [of "- 1", where ?'a = rat] by simp

lemma neg_loads:
  "load_counts (small_fleet [Text ''2.12.0''] [[Text ''2.12.0'', Text '''', Number (- 1)]]) =
   Inr [(Text ''2.12.0'', [(Date 2020 1 1, - 1)]), (Text ''1.x'', [(Date 2020 1 1, 0)]),
        (Text ''2.x'', [(Date 2020 1 1, - 1)]), (Text ''mc-capable'', [(Date 2020 1 1, - 1)]),
        (Text ''non-mc-capable'', [(Date 2020 1 1, 0)])]"
  by (simp add: run_defs date_20200101 semver_2_12_0 ceiling_minus_one)

lemma foldl_update_map_of:
  "map_of (foldl (\<lambda>acc v. AList.update v dates acc) os vs) v =
     (if v \<in> set vs then Some dates else map_of os v)"
  by (induction vs arbitrary: os) (auto simp: update_conv')

lemma load_versions_fresh:
  assumes "load_versions sh dates rs os = Inr os'" and "r \<in> set rs" and "cell sh r 0 = Inr v"
  shows "map_of os' v = Some dates"
proof -
  from load_versions_InrD [OF assms(1)] obtain vs where
    vs: "map (\<lambda>r. cell sh r 0) rs = map Inr vs"
    and os': "os' = foldl (\<lambda>acc v. AList.update v dates acc) os vs" by blast
  from assms(2) have "cell sh r 0 \<in> set (map (\<lambda>r. cell sh r 0) rs)" by simp
  with vs assms(3) have "v \<in> set vs" by auto
  then show ?thesis unfolding os' by (simp add: foldl_update_map_of)
qed

lemma load_counts_row_version:
  assumes "load_counts wb = Inr os" and "daily \<in> set (drop 3 (sheet_names wb))"
    and "sheet_by_name wb daily = Inr sh" and "r \<in> set [2..<nrows sh]"
  obtains v mc where "cell sh r 0 = Inr (Text v)" and "semver_match v MC_VERSION = Inr mc"
    and "Text v \<in> set (map fst os)"
proof -
  from load_counts_rows [OF assms] obtain d os0 os1 where
    p: "process_row sh d r os0 = Inr os1" and k: "map fst os0 = map fst os" by blast
  from p obtain v c mc os2 where "cell sh r 0 = Inr (Text v)"
    "semver_match v MC_VERSION = Inr mc" "add_count os0 (Text v) d c = Inr os2"
    by (rule process_row_InrD)
  moreover from this(3) have "Text v \<in> set (map fst os0)" using add_count_keys by blast
  ultimately show ?thesis using k that by simp
qed

lemma coll_loads:
  "load_counts (small_fleet [Text ''2.12.0'', Text ''2.x'', Text ''2.12.0'']
                  [[Text ''2.12.0'', Text '''', Number 4]]) =
   Inr [(Text ''2.12.0'', [(Date 2020 1 1, 4)]), (Text ''2.x'', [(Date 2020 1 1, 4)]),
        (Text ''1.x'', [(Date 2020 1 1, 0)]), (Text ''mc-capable'', [(Date 2020 1 1, 4)]),
        (Text ''non-mc-capable'', [(Date 2020 1 1, 0)])]"
  by (simp add: run_defs date_20200101 semver_2_12_0)

lemma coll_catalog:
  "catalog (small_fleet [Text ''2.12.0'', Text ''2.x'', Text ''2.12.0''] rows) =
     [Text ''2.12.0'', Text ''2.x'', Text ''2.12.0'']"
  by (simp add: catalog_def small_fleet_def sheet_by_name_def cell_def nrows_def upt_conv_Cons)

lemma replace_series:
  "load_versions \<lparr>sheet_name = ''OSVer'', cell_values = [[Text ''version''], [Text ''2.12.0'']]\<rparr>
     [(Date 2020 1 1, 0)] [1] [(Text ''2.12.0'', [(Date 2020 1 1, 9)])] =
   Inr [(Text ''2.12.0'', [(Date 2020 1 1, 0)])]"
  by (simp add: cell_def nrows_def)

lemma semver_2_x: "semver_match ''2.x'' MC_VERSION = Inl ValueError"
  by (rule semver_extra) (simp add: extra_versions_def)

lemma derived_loads:
  "load_counts (small_fleet [Text ''2.x''] [[Text ''2.x'', Text '''', Number 1]]) = Inl ValueError"
  by (simp add: run_defs date_20200101 semver_2_x)

lemma process_row_counts:
  assumes "process_row sh d r os = Inr os'" and "cell sh r 0 = Inr (Text v)"
    and "cell sh r 2 = Inr cv" and "py_int cv = Inr c"
  obtains mc where "semver_match v MC_VERSION = Inr mc" and "v \<notin> set extra_versions"
    and "\<forall>k. day_count os' k d = day_count os k d + (if k = Text v then c else 0)
                 + (if k = Text (special_version v) then c else 0)
                 + (if k = Text (mc_capability mc) then c else 0)"
proof -
  from process_row_day_count [OF assms(1)] assms(2,3,4) obtain mc where
    mc: "semver_match v MC_VERSION = Inr mc"
    and k: "\<forall>k. day_count os' k d = day_count os k d + (if k = Text v then c else 0)
                 + (if k = Text (special_version v) then c else 0)
                 + (if k = Text (mc_capability mc) then c else 0)"
    by auto
  from mc have "v \<notin> set extra_versions" using semver_extra [of v] by auto
  with mc k show ?thesis using that by blast
qed

lemmas row_defs = process_row_def add_count_def cell_def nrows_def day_sheet_def header_def
  py_int_def zero_counts_def initial_def extra_versions_def special_version_def mc_capability_def

lemma semver_3_0_0: "semver_match ''3.0.0'' MC_VERSION = Inr True"
  by (simp add: semver_defs)

lemma row_3_0_0:
  "process_row (day_sheet [[Text ''3.0.0'', Text '''', Number 7]]) (Date 2020 1 1) 2
     (zero_counts [Text ''3.0.0'']) =
   Inr [(Text ''3.0.0'', [(Date 2020 1 1, 7)]), (Text ''1.x'', [(Date 2020 1 1, 7)]),
        (Text ''2.x'', [(Date 2020 1 1, 0)]), (Text ''mc-capable'', [(Date 2020 1 1, 7)]),
        (Text ''non-mc-capable'', [(Date 2020 1 1, 0)])]"
  by (simp add: row_defs semver_3_0_0)

lemma row_2_12_0:
  "process_row (day_sheet [[Text ''2.12.0'', Text '''', Number 5]]) (Date 2020 1 1) 2
     (zero_counts [Text ''2.12.0'']) =
   Inr [(Text ''2.12.0'', [(Date 2020 1 1, 5)]), (Text ''1.x'', [(Date 2020 1 1, 0)]),
        (Text ''2.x'', [(Date 2020 1 1, 5)]), (Text ''mc-capable'', [(Date 2020 1 1, 5)]),
        (Text ''non-mc-capable'', [(Date 2020 1 1, 0)])]"
  by (simp add: row_defs semver_2_12_0)

lemma row_2_11_9:
  "process_row (day_sheet [[Text ''2.11.9'', Text '''', Number 3]]) (Date 2020 1 1) 2
     (zero_counts [Text ''2.11.9'']) =
   Inr [(Text ''2.11.9'', [(Date 2020 1 1, 3)]), (Text ''1.x'', [(Date 2020 1 1, 0)]),
        (Text ''2.x'', [(Date 2020 1 1, 3)]), (Text ''mc-capable'', [(Date 2020 1 1, 0)]),
        (Text ''non-mc-capable'', [(Date 2020 1 1, 3)])]"
  by (simp add: row_defs semver_2_11_9)

lemma row_1_8_0:
  "process_row (day_sheet [[Text ''1.8.0'', Text '''', Number 2]]) (Date 2020 1 1) 2
     (zero_counts [Text ''1.8.0'']) =
   Inr [(Text ''1.8.0'', [(Date 2020 1 1, 2)]), (Text ''1.x'', [(Date 2020 1 1, 2)]),
        (Text ''2.x'', [(Date 2020 1 1, 0)]), (Text ''mc-capable'', [(Date 2020 1 1, 0)]),
        (Text ''non-mc-capable'', [(Date 2020 1 1, 2)])]"
  by (simp add: row_defs semver_1_8_0)

lemma day_sheet_cells:
  "cell (day_sheet [[v, u, c]]) 2 0 = Inr v" "cell (day_sheet [[v, u, c]]) 2 2 = Inr c"
  by (simp_all add: cell_def nrows_def day_sheet_def)

lemma py_int_numeral: "py_int (Number (numeral n)) = Inr (numeral n)"
  by (simp add: py_int_def)

lemma zero_day_count: "day_count (zero_counts vs) k (Date 2020 1 1) = 0"
proof -
  have "list_all (\<lambda>(k, arr). arr = [(Date 2020 1 1, 0)]) (zero_counts vs)"
    unfolding zero_counts_def by (rule initial_all)
  then have "map_of (zero_counts vs) k = Some arr \<Longrightarrow> arr = [(Date 2020 1 1, 0)]" for arr
    unfolding list_all_iff by (auto dest: map_of_SomeD)
  then show ?thesis by (auto simp: day_count_def split: option.splits)
qed

lemma v3_loads:
  "load_counts (small_fleet [Text ''3.0.0''] [[Text ''3.0.0'', Text '''', Number 7]]) =
   Inr [(Text ''3.0.0'', [(Date 2020 1 1, 7)]), (Text ''1.x'', [(Date 2020 1 1, 7)]),
        (Text ''2.x'', [(Date 2020 1 1, 0)]), (Text ''mc-capable'', [(Date 2020 1 1, 7)]),
        (Text ''non-mc-capable'', [(Date 2020 1 1, 0)])]"
  by (simp add: run_defs date_20200101 semver_3_0_0)
















section \<open>The shape of the mapping\<close>

text \<open>
  Claim C1, as the code has it. When \<open>load_counts\<close> returns a mapping, its keys are
  pairwise distinct and are exactly the values of the catalog column together with the
  four derived keys; so there are \<open>V + 4\<close> of them when the \<open>V\<close> catalog values are
  pairwise distinct and none of them is a derived key. Every series has one entry per
  date sheet, and its dates are the dates of the sheet names in workbook order.
\<close>

theorem load_counts_shape:
  assumes "load_counts wb = Inr os"
  shows "distinct (map fst os) \<and>
         set (map fst os) = set (catalog wb) \<union> set (map Text extra_versions) \<and>
         (distinct (catalog wb) \<and> set (catalog wb) \<inter> set (map Text extra_versions) = {}
            \<longrightarrow> length os = length (catalog wb) + 4) \<and>
         list_all (\<lambda>(k, arr). length arr = length (drop 3 (sheet_names wb)) \<and>
                     map (\<lambda>row. Inr (fst row)) arr = map get_date (drop 3 (sheet_names wb))) os"
proof -
  from assms obtain sh vs where sh: "sheet_by_name wb ''OSVer'' = Inr sh"
    and vs: "map (\<lambda>r. cell sh r 0) [1..<nrows sh] = map Inr vs"
    and k: "set (map fst os) = set vs \<union> set (map Text extra_versions)"
    and d: "distinct (map fst os)"
    and sd: "same_dates (sheet_dates wb) os"
    and ds: "map get_date (drop 3 (sheet_names wb)) = map Inr (sheet_dates wb)"
    by (rule load_counts_keys)
  from sh vs have c: "catalog wb = vs" by (rule catalog_eq)
  have len: "length os = card (set vs \<union> set (map Text extra_versions))"
    using distinct_card [OF d] k by simp
  have l: "length (sheet_dates wb) = length (drop 3 (sheet_names wb))"
    using ds by (metis length_map)
  have "length arr = length (drop 3 (sheet_names wb)) \<and>
        map (\<lambda>row. Inr (fst row)) arr = map get_date (drop 3 (sheet_names wb))"
    if "(k, arr) \<in> set os" for k arr
  proof -
    from sd that have m: "map fst arr = sheet_dates wb"
      unfolding same_dates_def list_all_iff by auto
    then have "length arr = length (sheet_dates wb)" by (metis length_map)
    moreover have "map (\<lambda>row. Inr (fst row)) arr = map Inr (map fst arr)" by simp
    ultimately show ?thesis using m l ds by simp
  qed
  then have "list_all (\<lambda>(k, arr). length arr = length (drop 3 (sheet_names wb)) \<and>
                     map (\<lambda>row. Inr (fst row)) arr = map get_date (drop 3 (sheet_names wb))) os"
    unfolding list_all_iff by auto
  moreover have "distinct vs \<and> set vs \<inter> set (map Text extra_versions) = {}
            \<longrightarrow> length os = length vs + 4"
    using keys_count [of vs] len by simp
  ultimately show ?thesis using d k c by simp
qed

theorem load_counts_shape_witness:
  "load_counts fleet = Inr fleet_counts \<and> distinct (catalog fleet) \<and>
   set (catalog fleet) \<inter> set (map Text extra_versions) = {} \<and>
   length (catalog fleet) = 3 \<and> length fleet_counts = 3 + 4 \<and>
   drop 3 (sheet_names fleet) = [''20200101'', ''20200102''] \<and>
   list_all (\<lambda>(k, arr). length arr = length (drop 3 (sheet_names fleet)) \<and>
      map (\<lambda>row. Inr (fst row)) arr = map get_date (drop 3 (sheet_names fleet))) fleet_counts"
proof -
  note shape = load_counts_shape [OF fleet_loads]
  have c: "distinct (catalog fleet) \<and> set (catalog fleet) \<inter> set (map Text extra_versions) = {}"
    by (simp add: fleet_catalog extra_versions_def)
  with shape have "length fleet_counts = length (catalog fleet) + 4" by blast
  then have l: "length fleet_counts = 3 + 4" by (simp add: fleet_catalog)
  from shape have "list_all (\<lambda>(k, arr). length arr = length (drop 3 (sheet_names fleet)) \<and>
      map (\<lambda>row. Inr (fst row)) arr = map get_date (drop 3 (sheet_names fleet))) fleet_counts"
    by blast
  with fleet_loads c l fleet_sheets show ?thesis by (simp add: fleet_catalog)
qed

text \<open>
  The claim as stated, with \<open>V + 4\<close> keys for every workbook, fails on a catalog that
  lists a version twice: two catalog rows, five keys.
\<close>

theorem load_counts_shape_counterexample:
  "load_counts (small_fleet [Text ''2.12.0'', Text ''2.12.0''] [[Text ''2.12.0'', Text '''', Number 4]]) =
   Inr [(Text ''2.12.0'', [(Date 2020 1 1, 4)]), (Text ''1.x'', [(Date 2020 1 1, 0)]),
        (Text ''2.x'', [(Date 2020 1 1, 4)]), (Text ''mc-capable'', [(Date 2020 1 1, 4)]),
        (Text ''non-mc-capable'', [(Date 2020 1 1, 0)])] \<and>
   length (catalog (small_fleet [Text ''2.12.0'', Text ''2.12.0'']
                      [[Text ''2.12.0'', Text '''', Number 4]])) = 2 \<and>
   length [(Text ''2.12.0'', [(Date 2020 1 1, 4::int)]), (Text ''1.x'', [(Date 2020 1 1, 0)]),
        (Text ''2.x'', [(Date 2020 1 1, 4)]), (Text ''mc-capable'', [(Date 2020 1 1, 4)]),
        (Text ''non-mc-capable'', [(Date 2020 1 1, 0)])] \<noteq> 2 + 4"
  using dup_loads by (simp add: dup_catalog)

section \<open>The two partitions of the counts\<close>

text \<open>
  Claim C2. On every workbook that \<open>load_counts\<close> processes, and for every date sheet
  (row \<open>i\<close> of the series), the counts of all exact-version keys, that is of all keys
  but the four derived ones, add up to the count of \<^verbatim>\<open>1.x\<close> plus the count of \<^verbatim>\<open>2.x\<close>;
  both keys are in the mapping.
\<close>

theorem exact_sum_is_major_sum:
  assumes "load_counts wb = Inr os" and "i < length (drop 3 (sheet_names wb))"
  shows "Text ''1.x'' \<in> set (map fst os) \<and> Text ''2.x'' \<in> set (map fst os) \<and>
         total exact_version os i = count_at os (Text ''1.x'') i + count_at os (Text ''2.x'') i"
proof -
  from assms(1) obtain vs where k: "set (map fst os) = set vs \<union> set (map Text extra_versions)"
    and d: "distinct (map fst os)"
    by (rule load_counts_keys)
  have "total exact_version os i = total major_version os i"
    using expected_balance [of wb i] by (simp add: load_counts_total [OF assms])
  also have "major_version = (\<lambda>k. k \<in> set [Text ''1.x'', Text ''2.x''])"
    by (simp add: major_version_def fun_eq_iff)
  also have "total \<dots> os i = count_at os (Text ''1.x'') i + count_at os (Text ''2.x'') i"
    using d by (rule total_pair) simp
  finally show ?thesis using k by (simp add: extra_versions_def)
qed

theorem exact_sum_is_major_sum_witness:
  "load_counts fleet = Inr fleet_counts \<and> 1 < length (drop 3 (sheet_names fleet)) \<and>
   total exact_version fleet_counts 1 = 8 \<and>
   count_at fleet_counts (Text ''1.x'') 1 + count_at fleet_counts (Text ''2.x'') 1 = 8"
proof -
  have i: "1 < length (drop 3 (sheet_names fleet))" by (simp add: fleet_sheets)
  have "count_at fleet_counts (Text ''1.x'') 1 + count_at fleet_counts (Text ''2.x'') 1 = 8"
    by (simp add: count_at_def fleet_counts_def)
  with exact_sum_is_major_sum [OF fleet_loads i] fleet_loads i show ?thesis by simp
qed

text \<open>
  Claim C3. Under the same conditions the counts of all exact-version keys add up to the
  count of \<^verbatim>\<open>mc-capable\<close> plus the count of \<^verbatim>\<open>non-mc-capable\<close>.
\<close>

theorem exact_sum_is_capability_sum:
  assumes "load_counts wb = Inr os" and "i < length (drop 3 (sheet_names wb))"
  shows "Text ''mc-capable'' \<in> set (map fst os) \<and> Text ''non-mc-capable'' \<in> set (map fst os) \<and>
         total exact_version os i =
           count_at os (Text ''mc-capable'') i + count_at os (Text ''non-mc-capable'') i"
proof -
  from assms(1) obtain vs where k: "set (map fst os) = set vs \<union> set (map Text extra_versions)"
    and d: "distinct (map fst os)"
    by (rule load_counts_keys)
  have "total exact_version os i = total capability os i"
    using expected_balance [of wb i] by (simp add: load_counts_total [OF assms])
  also have "capability = (\<lambda>k. k \<in> set [Text ''mc-capable'', Text ''non-mc-capable''])"
    by (simp add: capability_def fun_eq_iff)
  also have "total \<dots> os i =
      count_at os (Text ''mc-capable'') i + count_at os (Text ''non-mc-capable'') i"
    using d by (rule total_pair) simp
  finally show ?thesis using k by (simp add: extra_versions_def)
qed

theorem exact_sum_is_capability_sum_witness:
  "load_counts fleet = Inr fleet_counts \<and> 0 < length (drop 3 (sheet_names fleet)) \<and>
   total exact_version fleet_counts 0 = 7 \<and>
   count_at fleet_counts (Text ''mc-capable'') 0
     + count_at fleet_counts (Text ''non-mc-capable'') 0 = 7"
proof -
  have i: "0 < length (drop 3 (sheet_names fleet))" by (simp add: fleet_sheets)
  have "count_at fleet_counts (Text ''mc-capable'') 0
     + count_at fleet_counts (Text ''non-mc-capable'') 0 = 7"
    by (simp add: count_at_def fleet_counts_def)
  with exact_sum_is_capability_sum [OF fleet_loads i] fleet_loads i show ?thesis by simp
qed

section \<open>Where the count of a row goes\<close>

text \<open>
  Claim C4, as the code has it. When a daily row is processed, its count is added to
  \<^verbatim>\<open>2.x\<close> if the version string starts with the character 2, and to \<^verbatim>\<open>1.x\<close> otherwise;
  the other of the two keys keeps its count. The counts are those of the row that the
  sheet's date addresses.
\<close>

theorem major_version_routing:
  assumes "process_row sh d r os = Inr os'" and "cell sh r 0 = Inr (Text v)"
    and "cell sh r 2 = Inr cv" and "py_int cv = Inr c"
  shows "(hd v = CHR ''2'' \<longrightarrow>
            day_count os' (Text ''2.x'') d = day_count os (Text ''2.x'') d + c \<and>
            day_count os' (Text ''1.x'') d = day_count os (Text ''1.x'') d) \<and>
         (hd v \<noteq> CHR ''2'' \<longrightarrow>
            day_count os' (Text ''1.x'') d = day_count os (Text ''1.x'') d + c \<and>
            day_count os' (Text ''2.x'') d = day_count os (Text ''2.x'') d)"
proof -
  from assms obtain mc where v: "v \<notin> set extra_versions"
    and k: "\<forall>k. day_count os' k d = day_count os k d + (if k = Text v then c else 0)
                 + (if k = Text (special_version v) then c else 0)
                 + (if k = Text (mc_capability mc) then c else 0)"
    by (rule process_row_counts)
  from v have "v \<noteq> ''1.x''" "v \<noteq> ''2.x''" by (auto simp: extra_versions_def)
  then show ?thesis by (simp add: k special_version_def mc_capability_def)
qed

theorem major_version_routing_witness:
  "process_row (day_sheet [[Text ''3.0.0'', Text '''', Number 7]]) (Date 2020 1 1) 2
     (zero_counts [Text ''3.0.0'']) =
   Inr [(Text ''3.0.0'', [(Date 2020 1 1, 7)]), (Text ''1.x'', [(Date 2020 1 1, 7)]),
        (Text ''2.x'', [(Date 2020 1 1, 0)]), (Text ''mc-capable'', [(Date 2020 1 1, 7)]),
        (Text ''non-mc-capable'', [(Date 2020 1 1, 0)])] \<and>
   hd ''3.0.0'' \<noteq> CHR ''2'' \<and>
   day_count [(Text ''3.0.0'', [(Date 2020 1 1, 7)]), (Text ''1.x'', [(Date 2020 1 1, 7)]),
        (Text ''2.x'', [(Date 2020 1 1, 0)]), (Text ''mc-capable'', [(Date 2020 1 1, 7)]),
        (Text ''non-mc-capable'', [(Date 2020 1 1, 0)])] (Text ''1.x'') (Date 2020 1 1) = 7 \<and>
   process_row (day_sheet [[Text ''2.12.0'', Text '''', Number 5]]) (Date 2020 1 1) 2
     (zero_counts [Text ''2.12.0'']) =
   Inr [(Text ''2.12.0'', [(Date 2020 1 1, 5)]), (Text ''1.x'', [(Date 2020 1 1, 0)]),
        (Text ''2.x'', [(Date 2020 1 1, 5)]), (Text ''mc-capable'', [(Date 2020 1 1, 5)]),
        (Text ''non-mc-capable'', [(Date 2020 1 1, 0)])] \<and>
   hd ''2.12.0'' = CHR ''2'' \<and>
   day_count [(Text ''2.12.0'', [(Date 2020 1 1, 5)]), (Text ''1.x'', [(Date 2020 1 1, 0)]),
        (Text ''2.x'', [(Date 2020 1 1, 5)]), (Text ''mc-capable'', [(Date 2020 1 1, 5)]),
        (Text ''non-mc-capable'', [(Date 2020 1 1, 0)])] (Text ''2.x'') (Date 2020 1 1) = 5"
  using major_version_routing [OF row_3_0_0 day_sheet_cells py_int_numeral, unfolded zero_day_count]
    major_version_routing [OF row_2_12_0 day_sheet_cells py_int_numeral, unfolded zero_day_count]
    row_3_0_0 row_2_12_0
  by simp

text \<open>
  The claim as stated sends every version that does not start with 1 to \<^verbatim>\<open>2.x\<close>. A
  row for version \<^verbatim>\<open>3.0.0\<close> with count 7 is counted under \<^verbatim>\<open>1.x\<close>, and \<^verbatim>\<open>2.x\<close> stays 0.
\<close>

theorem major_version_routing_counterexample:
  "hd ''3.0.0'' \<noteq> CHR ''1'' \<and>
   load_counts (small_fleet [Text ''3.0.0''] [[Text ''3.0.0'', Text '''', Number 7]]) =
   Inr [(Text ''3.0.0'', [(Date 2020 1 1, 7)]), (Text ''1.x'', [(Date 2020 1 1, 7)]),
        (Text ''2.x'', [(Date 2020 1 1, 0)]), (Text ''mc-capable'', [(Date 2020 1 1, 7)]),
        (Text ''non-mc-capable'', [(Date 2020 1 1, 0)])]"
  using v3_loads by simp

text \<open>
  Claim C5. A processed row for version \<^verbatim>\<open>2.12.0\<close> adds its count to \<^verbatim>\<open>2.x\<close> and
  \<^verbatim>\<open>mc-capable\<close>; one for \<^verbatim>\<open>2.11.9\<close> to \<^verbatim>\<open>2.x\<close> and \<^verbatim>\<open>non-mc-capable\<close>; one for
  \<^verbatim>\<open>1.8.0\<close> to \<^verbatim>\<open>1.x\<close> and \<^verbatim>\<open>non-mc-capable\<close>. The other two derived keys keep their
  counts.
\<close>

theorem capability_boundary:
  assumes "process_row sh d r os = Inr os'" and "cell sh r 0 = Inr (Text v)"
    and "cell sh r 2 = Inr cv" and "py_int cv = Inr c"
  shows "(v = ''2.12.0'' \<longrightarrow>
            day_count os' (Text ''2.x'') d = day_count os (Text ''2.x'') d + c \<and>
            day_count os' (Text ''mc-capable'') d = day_count os (Text ''mc-capable'') d + c \<and>
            day_count os' (Text ''1.x'') d = day_count os (Text ''1.x'') d \<and>
            day_count os' (Text ''non-mc-capable'') d = day_count os (Text ''non-mc-capable'') d) \<and>
         (v = ''2.11.9'' \<longrightarrow>
            day_count os' (Text ''2.x'') d = day_count os (Text ''2.x'') d + c \<and>
            day_count os' (Text ''non-mc-capable'') d
              = day_count os (Text ''non-mc-capable'') d + c \<and>
            day_count os' (Text ''1.x'') d = day_count os (Text ''1.x'') d \<and>
            day_count os' (Text ''mc-capable'') d = day_count os (Text ''mc-capable'') d) \<and>
         (v = ''1.8.0'' \<longrightarrow>
            day_count os' (Text ''1.x'') d = day_count os (Text ''1.x'') d + c \<and>
            day_count os' (Text ''non-mc-capable'') d
              = day_count os (Text ''non-mc-capable'') d + c \<and>
            day_count os' (Text ''2.x'') d = day_count os (Text ''2.x'') d \<and>
            day_count os' (Text ''mc-capable'') d = day_count os (Text ''mc-capable'') d)"
proof -
  from assms obtain mc where mc: "semver_match v MC_VERSION = Inr mc"
    and k: "\<forall>k. day_count os' k d = day_count os k d + (if k = Text v then c else 0)
                 + (if k = Text (special_version v) then c else 0)
                 + (if k = Text (mc_capability mc) then c else 0)"
    by (rule process_row_counts)
  have a: "v = ''2.12.0'' \<Longrightarrow> mc" using mc by (simp add: semver_2_12_0)
  have b: "v = ''2.11.9'' \<Longrightarrow> \<not> mc" using mc by (simp add: semver_2_11_9)
  have c: "v = ''1.8.0'' \<Longrightarrow> \<not> mc" using mc by (simp add: semver_1_8_0)
  show ?thesis using a b c by (auto simp add: k special_version_def mc_capability_def)
qed

theorem capability_boundary_witness:
  "process_row (day_sheet [[Text ''2.12.0'', Text '''', Number 5]]) (Date 2020 1 1) 2
     (zero_counts [Text ''2.12.0'']) =
   Inr [(Text ''2.12.0'', [(Date 2020 1 1, 5)]), (Text ''1.x'', [(Date 2020 1 1, 0)]),
        (Text ''2.x'', [(Date 2020 1 1, 5)]), (Text ''mc-capable'', [(Date 2020 1 1, 5)]),
        (Text ''non-mc-capable'', [(Date 2020 1 1, 0)])] \<and>
   day_count [(Text ''2.12.0'', [(Date 2020 1 1, 5)]), (Text ''1.x'', [(Date 2020 1 1, 0)]),
        (Text ''2.x'', [(Date 2020 1 1, 5)]), (Text ''mc-capable'', [(Date 2020 1 1, 5)]),
        (Text ''non-mc-capable'', [(Date 2020 1 1, 0)])] (Text ''mc-capable'') (Date 2020 1 1) = 5 \<and>
   process_row (day_sheet [[Text ''2.11.9'', Text '''', Number 3]]) (Date 2020 1 1) 2
     (zero_counts [Text ''2.11.9'']) =
   Inr [(Text ''2.11.9'', [(Date 2020 1 1, 3)]), (Text ''1.x'', [(Date 2020 1 1, 0)]),
        (Text ''2.x'', [(Date 2020 1 1, 3)]), (Text ''mc-capable'', [(Date 2020 1 1, 0)]),
        (Text ''non-mc-capable'', [(Date 2020 1 1, 3)])] \<and>
   day_count [(Text ''2.11.9'', [(Date 2020 1 1, 3)]), (Text ''1.x'', [(Date 2020 1 1, 0)]),
        (Text ''2.x'', [(Date 2020 1 1, 3)]), (Text ''mc-capable'', [(Date 2020 1 1, 0)]),
        (Text ''non-mc-capable'', [(Date 2020 1 1, 3)])] (Text ''non-mc-capable'') (Date 2020 1 1) = 3 \<and>
   process_row (day_sheet [[Text ''1.8.0'', Text '''', Number 2]]) (Date 2020 1 1) 2
     (zero_counts [Text ''1.8.0'']) =
   Inr [(Text ''1.8.0'', [(Date 2020 1 1, 2)]), (Text ''1.x'', [(Date 2020 1 1, 2)]),
        (Text ''2.x'', [(Date 2020 1 1, 0)]), (Text ''mc-capable'', [(Date 2020 1 1, 0)]),
        (Text ''non-mc-capable'', [(Date 2020 1 1, 2)])] \<and>
   day_count [(Text ''1.8.0'', [(Date 2020 1 1, 2)]), (Text ''1.x'', [(Date 2020 1 1, 2)]),
        (Text ''2.x'', [(Date 2020 1 1, 0)]), (Text ''mc-capable'', [(Date 2020 1 1, 0)]),
        (Text ''non-mc-capable'', [(Date 2020 1 1, 2)])] (Text ''1.x'') (Date 2020 1 1) = 2"
  using capability_boundary [OF row_2_12_0 day_sheet_cells py_int_numeral, unfolded zero_day_count]
    capability_boundary [OF row_2_11_9 day_sheet_cells py_int_numeral, unfolded zero_day_count]
    capability_boundary [OF row_1_8_0 day_sheet_cells py_int_numeral, unfolded zero_day_count]
    row_2_12_0 row_2_11_9 row_1_8_0
  by simp

section \<open>Rows that make the aggregator fail\<close>







section \<open>The contract of the date extractor\<close>




section \<open>Counts as sums\<close>

text \<open>
  Claim C9, as the code has it. In the mapping that \<open>load_counts\<close> returns, the count
  of every key in every row of its series is the sum of the counts of the daily rows
  that contribute to it (\<open>expected_count\<close>); it is at least 0 when the count of every
  daily row is.
\<close>

theorem counts_are_sums:
  assumes "load_counts wb = Inr os" and "(k, arr) \<in> set os" and "i < length arr"
  shows "snd (arr ! i) = expected_count wb (\<lambda>k'. k' = k) i \<and>
         (nonneg_counts wb \<longrightarrow> 0 \<le> snd (arr ! i))"
proof -
  from assms(1) obtain d: "distinct (map fst os)" and sd: "same_dates (sheet_dates wb) os"
    and ds: "map get_date (drop 3 (sheet_names wb)) = map Inr (sheet_dates wb)"
    by (rule load_counts_keys)
  from d assms(2) have m: "map_of os k = Some arr" by (rule map_of_is_SomeI)
  from sd assms(2) have "map fst arr = sheet_dates wb"
    unfolding same_dates_def list_all_iff by auto
  then have "length arr = length (sheet_dates wb)" by (metis length_map)
  also have "\<dots> = length (drop 3 (sheet_names wb))" using ds by (metis length_map)
  finally have i: "i < length (drop 3 (sheet_names wb))" using assms(3) by simp
  have "snd (arr ! i) = count_at os k i" using m by (simp add: count_at_def)
  also have "\<dots> = total (\<lambda>k'. k' = k) os i" using d by (rule total_single [symmetric])
  also have "\<dots> = expected_count wb (\<lambda>k'. k' = k) i" using assms(1) i by (rule load_counts_total)
  finally show ?thesis using expected_nonneg [of wb] by simp
qed

theorem counts_are_sums_witness:
  "load_counts fleet = Inr fleet_counts \<and>
   (Text ''2.x'', [(Date 2020 1 1, 5), (Date 2020 1 2, 8)]) \<in> set fleet_counts \<and>
   expected_count fleet (\<lambda>k'. k' = Text ''2.x'') 1 = 8 \<and> nonneg_counts fleet"
proof -
  have m: "(Text ''2.x'', [(Date 2020 1 1, 5), (Date 2020 1 2, 8)]) \<in> set fleet_counts"
    by (simp add: fleet_counts_def)
  have i: "1 < length [(Date 2020 1 1, 5::int), (Date 2020 1 2, 8)]" by simp
  from counts_are_sums [OF fleet_loads m i] fleet_loads m fleet_nonneg show ?thesis by simp
qed

text \<open>
  The claim as stated has every count non-negative. The script adds whatever integer a
  row holds: a row with count \<open>- 1\<close> leaves \<open>- 1\<close> in the series.
\<close>

theorem counts_are_sums_counterexample:
  "load_counts (small_fleet [Text ''2.12.0''] [[Text ''2.12.0'', Text '''', Number (- 1)]]) =
   Inr [(Text ''2.12.0'', [(Date 2020 1 1, - 1)]), (Text ''1.x'', [(Date 2020 1 1, 0)]),
        (Text ''2.x'', [(Date 2020 1 1, - 1)]), (Text ''mc-capable'', [(Date 2020 1 1, - 1)]),
        (Text ''non-mc-capable'', [(Date 2020 1 1, 0)])] \<and>
   snd ([(Date 2020 1 1, - 1 :: int)] ! 0) < 0"
  using neg_loads by simp

section \<open>Catalog values that collide\<close>

text \<open>
  Claim C10, as the code has it. Let the catalog list a value twice, or list one of the
  four derived keys, and let \<open>load_counts\<close> return a mapping. Then the mapping has fewer
  than \<open>V + 4\<close> keys, each key once, and no daily row holds a derived key as its
  version, so no count of an exact version is mixed into a derived series. The loop
  over the catalog leaves the fresh template \<open>dates\<close> under every key it inserts,
  whatever the key held before.
\<close>

theorem catalog_collisions:
  assumes "load_counts wb = Inr os"
    and "\<not> distinct (catalog wb) \<or> set (catalog wb) \<inter> set (map Text extra_versions) \<noteq> {}"
  shows "length os < length (catalog wb) + 4 \<and> distinct (map fst os) \<and>
         set (map fst os) = set (catalog wb) \<union> set (map Text extra_versions) \<and>
         (daily \<in> set (drop 3 (sheet_names wb)) \<and> sheet_by_name wb daily = Inr sh \<and>
          r \<in> set [2..<nrows sh] \<and> cell sh r 0 = Inr (Text v) \<longrightarrow> v \<notin> set extra_versions) \<and>
         (load_versions ossheet dates row_idxs acc = Inr acc' \<and> row_idx \<in> set row_idxs \<and>
          cell ossheet row_idx 0 = Inr key \<longrightarrow> map_of acc' key = Some dates)"
proof -
  from assms(1) obtain sh' vs where sh: "sheet_by_name wb ''OSVer'' = Inr sh'"
    and vs: "map (\<lambda>r. cell sh' r 0) [1..<nrows sh'] = map Inr vs"
    and k: "set (map fst os) = set vs \<union> set (map Text extra_versions)"
    and d: "distinct (map fst os)"
    by (rule load_counts_keys)
  from sh vs have c: "catalog wb = vs" by (rule catalog_eq)
  have "length os = card (set vs \<union> set (map Text extra_versions))"
    using distinct_card [OF d] k by simp
  with keys_count_less [of vs] assms(2) c have l: "length os < length (catalog wb) + 4" by simp
  have "v \<notin> set extra_versions"
    if "daily \<in> set (drop 3 (sheet_names wb))" "sheet_by_name wb daily = Inr sh"
      "r \<in> set [2..<nrows sh]" "cell sh r 0 = Inr (Text v)"
  proof -
    from assms(1) that(1,2,3) obtain v' mc where "cell sh r 0 = Inr (Text v')"
      "semver_match v' MC_VERSION = Inr mc" by (rule load_counts_row_version)
    with that(4) have "semver_match v MC_VERSION = Inr mc" by simp
    then show ?thesis using semver_extra [of v] by auto
  qed
  moreover have "map_of acc' key = Some dates"
    if "load_versions ossheet dates row_idxs acc = Inr acc'" "row_idx \<in> set row_idxs"
      "cell ossheet row_idx 0 = Inr key"
    using that by (rule load_versions_fresh)
  ultimately show ?thesis using l d k c by simp
qed

theorem catalog_collisions_witness:
  "load_counts (small_fleet [Text ''2.12.0'', Text ''2.x'', Text ''2.12.0'']
                  [[Text ''2.12.0'', Text '''', Number 4]]) =
   Inr [(Text ''2.12.0'', [(Date 2020 1 1, 4)]), (Text ''2.x'', [(Date 2020 1 1, 4)]),
        (Text ''1.x'', [(Date 2020 1 1, 0)]), (Text ''mc-capable'', [(Date 2020 1 1, 4)]),
        (Text ''non-mc-capable'', [(Date 2020 1 1, 0)])] \<and>
   \<not> distinct (catalog (small_fleet [Text ''2.12.0'', Text ''2.x'', Text ''2.12.0'']
                  [[Text ''2.12.0'', Text '''', Number 4]])) \<and>
   length [(Text ''2.12.0'', [(Date 2020 1 1, 4::int)]), (Text ''2.x'', [(Date 2020 1 1, 4)]),
        (Text ''1.x'', [(Date 2020 1 1, 0)]), (Text ''mc-capable'', [(Date 2020 1 1, 4)]),
        (Text ''non-mc-capable'', [(Date 2020 1 1, 0)])]
     < length (catalog (small_fleet [Text ''2.12.0'', Text ''2.x'', Text ''2.12.0'']
                  [[Text ''2.12.0'', Text '''', Number 4]])) + 4 \<and>
   load_versions \<lparr>sheet_name = ''OSVer'', cell_values = [[Text ''version''], [Text ''2.12.0'']]\<rparr>
     [(Date 2020 1 1, 0)] [1] [(Text ''2.12.0'', [(Date 2020 1 1, 9)])] =
   Inr [(Text ''2.12.0'', [(Date 2020 1 1, 0)])] \<and>
   map_of [(Text ''2.12.0'', [(Date 2020 1 1, 0::int)])] (Text ''2.12.0'') = Some [(Date 2020 1 1, 0)]"
proof -
  let ?wb = "small_fleet [Text ''2.12.0'', Text ''2.x'', Text ''2.12.0'']
                  [[Text ''2.12.0'', Text '''', Number 4]]"
  let ?cat = "\<lparr>sheet_name = ''OSVer'', cell_values = [[Text ''version''], [Text ''2.12.0'']]\<rparr>"
  have c: "\<not> distinct (catalog ?wb)" by (simp add: coll_catalog)
  then have c': "\<not> distinct (catalog ?wb) \<or>
      set (catalog ?wb) \<inter> set (map Text extra_versions) \<noteq> {}"
    by (rule disjI1)
  note t = catalog_collisions [OF coll_loads c', of "''20200101''"
      "day_sheet [[Text ''2.12.0'', Text '''', Number 4]]" 2 "''2.12.0''" ?cat "[(Date 2020 1 1, 0)]"
      "[1]" "[(Text ''2.12.0'', [(Date 2020 1 1, 9)])]" "[(Text ''2.12.0'', [(Date 2020 1 1, 0)])]"
      1 "Text ''2.12.0''"]
  have m: "1 \<in> set [1::nat]" by simp
  have k: "cell ?cat 1 0 = Inr (Text ''2.12.0'')" by (simp add: cell_def nrows_def)
  from t replace_series m k
  have "map_of [(Text ''2.12.0'', [(Date 2020 1 1, 0::int)])] (Text ''2.12.0'') = Some [(Date 2020 1 1, 0)]"
    by blast
  moreover from t have "length [(Text ''2.12.0'', [(Date 2020 1 1, 4::int)]), (Text ''2.x'', [(Date 2020 1 1, 4)]),
        (Text ''1.x'', [(Date 2020 1 1, 0)]), (Text ''mc-capable'', [(Date 2020 1 1, 4)]),
        (Text ''non-mc-capable'', [(Date 2020 1 1, 0)])] < length (catalog ?wb) + 4"
    by blast
  ultimately show ?thesis using coll_loads c replace_series by blast
qed

text \<open>
  The claim as stated has \<open>load_counts\<close> succeed and mix the colliding counts into the
  derived series. With \<^verbatim>\<open>2.x\<close> in the catalog and a daily row for \<^verbatim>\<open>2.x\<close>, the
  capability predicate rejects the version and \<open>load_counts\<close> fails.
\<close>

theorem catalog_collisions_counterexample:
  "Text ''2.x'' \<in> set (catalog (small_fleet [Text ''2.x''] [[Text ''2.x'', Text '''', Number 1]])) \<and>
   load_counts (small_fleet [Text ''2.x''] [[Text ''2.x'', Text '''', Number 1]]) = Inl ValueError"
  using derived_loads
  by (simp add: catalog_def small_fleet_def sheet_by_name_def cell_def nrows_def upt_conv_Cons)

end
